theory Spec2Isabelle
  imports Complex_Main "HOL-Library.Word" "HOL-Library.Multiset"
begin

unbundle bit_operations_syntax

section \<open>Data model (util.h, print.h and the system headers)\<close>

text \<open>
  Every way the program can stop early is a value of \<open>error\<close>: the calls of \<open>err\<close> and
  \<open>errx\<close>, a failed \<open>assert\<close>, and the places where the C text leaves the allocated
  memory (\<open>MemoryOverrun\<close>), reads a buffer that holds no terminating NUL
  (\<open>UnterminatedBuffer\<close>), reads bytes that were never written (\<open>UninitializedRead\<close>) or
  converts a \<open>double\<close> to an integer type that cannot hold it (\<open>UndefinedConversion\<close>).
\<close>

datatype error =
    LstatError
  | PathTooLong
  | BufferTooSmallForMode
  | EntryColumnsMismatch
  | AssertionFailed
  | NoGridFlag
  | ReadlinkError
  | SymlinkGrew
  | TimeError
  | LocaltimeError
  | StrftimeError
  | DivisionByZero
  | MemoryOverrun
  | UnterminatedBuffer
  | UninitializedRead
  | UndefinedConversion

type_synonym mode_t = "32 word"

definition DELIMITER :: char where "DELIMITER = CHR 0x08"
definition NUL :: char where "NUL = CHR 0x00"
definition LINE_SIZE :: nat where "LINE_SIZE = 512"
definition TTY_COLUMNS :: nat where "TTY_COLUMNS = 80"
definition NAME_MAX :: nat where "NAME_MAX = 255"
definition DEFAULT_BLOCK_SIZE :: nat where "DEFAULT_BLOCK_SIZE = 512"
definition PATH_MAX :: nat where "PATH_MAX = 4096"

definition S_IFMT :: mode_t where "S_IFMT = 0xF000"
definition S_IFIFO :: mode_t where "S_IFIFO = 0x1000"
definition S_IFCHR :: mode_t where "S_IFCHR = 0x2000"
definition S_IFDIR :: mode_t where "S_IFDIR = 0x4000"
definition S_IFBLK :: mode_t where "S_IFBLK = 0x6000"
definition S_IFREG :: mode_t where "S_IFREG = 0x8000"
definition S_IFLNK :: mode_t where "S_IFLNK = 0xA000"
definition S_IFSOCK :: mode_t where "S_IFSOCK = 0xC000"
definition S_IFWHT :: mode_t where "S_IFWHT = 0xE000"
definition S_ISUID :: mode_t where "S_ISUID = 0x800"
definition S_ISGID :: mode_t where "S_ISGID = 0x400"
definition S_ISVTX :: mode_t where "S_ISVTX = 0x200"
definition S_IRUSR :: mode_t where "S_IRUSR = 0x100"
definition S_IWUSR :: mode_t where "S_IWUSR = 0x80"
definition S_IXUSR :: mode_t where "S_IXUSR = 0x40"
definition S_IRGRP :: mode_t where "S_IRGRP = 0x20"
definition S_IWGRP :: mode_t where "S_IWGRP = 0x10"
definition S_IXGRP :: mode_t where "S_IXGRP = 0x08"
definition S_IROTH :: mode_t where "S_IROTH = 0x04"
definition S_IWOTH :: mode_t where "S_IWOTH = 0x02"
definition S_IXOTH :: mode_t where "S_IXOTH = 0x01"

definition S_ISDIR :: "mode_t \<Rightarrow> bool" where "S_ISDIR m = (m AND S_IFMT = S_IFDIR)"
definition S_ISLNK :: "mode_t \<Rightarrow> bool" where "S_ISLNK m = (m AND S_IFMT = S_IFLNK)"
definition S_ISBLK :: "mode_t \<Rightarrow> bool" where "S_ISBLK m = (m AND S_IFMT = S_IFBLK)"
definition S_ISCHR :: "mode_t \<Rightarrow> bool" where "S_ISCHR m = (m AND S_IFMT = S_IFCHR)"

record flags =
  Aflag :: bool
  aflag :: bool
  Cflag :: bool
  cflag :: bool
  dflag :: bool
  Fflag :: bool
  fflag :: bool
  hflag :: bool
  iflag :: bool
  kflag :: bool
  lflag :: bool
  nflag :: bool
  qflag :: bool
  Rflag :: bool
  rflag :: bool
  Sflag :: bool
  sflag :: bool
  tflag :: bool
  uflag :: bool
  wflag :: bool
  xflag :: bool
  oneflag :: bool

record stat =
  st_mode :: mode_t
  st_ino :: nat
  st_nlink :: nat
  st_uid :: nat
  st_gid :: nat
  st_rdev :: "64 word"
  st_size :: int
  st_blocks :: int
  st_atime :: int
  st_mtime :: int
  st_ctime :: int

record file_entry =
  name :: string
  sb :: stat

datatype sort_type = SORT_LEXICO | SORT_SIZE | SORT_ATIME | SORT_MTIME | SORT_CTIME

text \<open>The two process-wide variables of util.c that \<open>cmp\<close> reads.\<close>

record sort_config =
  sort_key :: sort_type
  reverse :: bool

section \<open>util.c\<close>

text \<open>A C string ends at its first NUL byte; \<open>strlen\<close> counts the bytes before it.\<close>

definition c_string :: "string \<Rightarrow> string" where
  "c_string s = takeWhile (\<lambda>c. c \<noteq> NUL) s"

definition strlen :: "string \<Rightarrow> nat" where
  "strlen s = length (c_string s)"

text \<open>\<open>tolower\<close> of the C locale, and \<open>strcasecmp\<close> as the C library has it: the bytes are
  compared as unsigned values after \<open>tolower\<close>, the first difference is the result, and the
  comparison stops at the terminating NUL (the end of the list counts as one).\<close>

definition tolower :: "char \<Rightarrow> char" where
  "tolower c = (let n = (of_char c :: nat) in if 65 \<le> n \<and> n \<le> 90 then char_of (n + 32) else c)"

fun strcasecmp :: "string \<Rightarrow> string \<Rightarrow> int" where
  "strcasecmp [] [] = 0"
| "strcasecmp [] (y # ys) = - int (of_char (tolower y))"
| "strcasecmp (x # xs) [] = int (of_char (tolower x))"
| "strcasecmp (x # xs) (y # ys) =
     (let res = int (of_char (tolower x)) - int (of_char (tolower y))
      in if res \<noteq> 0 then res else if x = NUL then 0 else strcasecmp xs ys)"

definition cmp :: "sort_config \<Rightarrow> file_entry \<Rightarrow> file_entry \<Rightarrow> int" where
  "cmp g p1 p2 =
     (let res =
        (case sort_key g of
           SORT_LEXICO \<Rightarrow> strcasecmp (name p1) (name p2)
         | SORT_SIZE \<Rightarrow>
             (if st_size (sb p1) < st_size (sb p2) then 1
              else if st_size (sb p1) = st_size (sb p2) then 0 else - 1)
         | SORT_ATIME \<Rightarrow>
             (if st_atime (sb p1) < st_atime (sb p2) then 1
              else if st_atime (sb p1) = st_atime (sb p2) then 0 else - 1)
         | SORT_MTIME \<Rightarrow>
             (if st_mtime (sb p1) < st_mtime (sb p2) then 1
              else if st_mtime (sb p1) = st_mtime (sb p2) then 0 else - 1)
         | SORT_CTIME \<Rightarrow>
             (if st_ctime (sb p1) < st_ctime (sb p2) then 1
              else if st_ctime (sb p1) = st_ctime (sb p2) then 0 else - 1))
      in if reverse g then - res else res)"

text \<open>\<open>qsort\<close> of the C library: it returns the elements in ascending order of the
  comparator and promises nothing about the order of elements that compare equal. It is
  modelled by insertion sort.\<close>

fun insort_cmp :: "('a \<Rightarrow> 'a \<Rightarrow> int) \<Rightarrow> 'a \<Rightarrow> 'a list \<Rightarrow> 'a list" where
  "insort_cmp c x [] = [x]"
| "insort_cmp c x (y # ys) = (if c x y \<le> 0 then x # y # ys else y # insort_cmp c x ys)"

definition qsort :: "('a \<Rightarrow> 'a \<Rightarrow> int) \<Rightarrow> 'a list \<Rightarrow> 'a list" where
  "qsort c xs = foldr (insort_cmp c) xs []"

text \<open>The first loop of \<open>stat_and_sort\<close>: \<open>i\<close> counts the paths already seen, \<open>es\<close> is the
  caller's array of \<open>pathc\<close> entries. A directory goes to \<open>pathc - 1 - i + non_dirc\<close>, any
  other file to \<open>non_dirc\<close>.\<close>

fun stat_loop ::
  "(string \<Rightarrow> stat option) \<Rightarrow> nat \<Rightarrow> string list \<Rightarrow> nat \<Rightarrow> nat \<Rightarrow> file_entry list
     \<Rightarrow> error + (nat \<times> file_entry list)" where
  "stat_loop lstat pathc [] i non_dirc es = Inr (non_dirc, es)"
| "stat_loop lstat pathc (path # paths) i non_dirc es =
     (case lstat path of
        None \<Rightarrow> Inl LstatError
      | Some st \<Rightarrow>
          (let p = (if S_ISDIR (st_mode st) then pathc - 1 - i + non_dirc else non_dirc)
           in if \<not> p < length es then Inl MemoryOverrun
              else if strlen path \<ge> NAME_MAX + 1 then Inl PathTooLong
              else stat_loop lstat pathc paths (i + 1)
                     (if \<not> S_ISDIR (st_mode st) then non_dirc + 1 else non_dirc)
                     (es[p := \<lparr>name = c_string path, sb = st\<rparr>])))"

text \<open>\<open>stat_and_sort\<close> gets the configuration in force at the call, the system's
  \<open>lstat\<close>, the paths and the caller's array; it returns the configuration it leaves
  behind, the number of non-directories and the array.\<close>

definition stat_and_sort ::
  "sort_config \<Rightarrow> (string \<Rightarrow> stat option) \<Rightarrow> string list \<Rightarrow> file_entry list
     \<Rightarrow> error + (sort_config \<times> nat \<times> file_entry list)" where
  "stat_and_sort g lstat path entries =
     (case stat_loop lstat (length path) path 0 0 entries of
        Inl e \<Rightarrow> Inl e
      | Inr (non_dirc, es) \<Rightarrow>
          (let g1 = g\<lparr>reverse := False\<rparr>;
               g2 = g1\<lparr>sort_key := SORT_LEXICO\<rparr>;
               es1 = qsort (cmp g2) (take non_dirc es) @ drop non_dirc es;
               es2 = take non_dirc es1 @ qsort (cmp g2) (drop non_dirc es1)
           in Inr (g2, non_dirc, es2)))"

definition is_dot_dir :: "string \<Rightarrow> bool" where
  "is_dot_dir path = (c_string path = ''.'' \<or> c_string path = ''..'')"

definition is_hidden_file :: "string \<Rightarrow> bool" where
  "is_hidden_file path = (take 1 (c_string path) = ''.'' \<and> \<not> is_dot_dir path)"

definition display_file :: "string \<Rightarrow> string \<Rightarrow> flags \<Rightarrow> bool" where
  "display_file dir nm flag = (if is_dot_dir nm \<or> is_hidden_file nm then aflag flag else True)"

section \<open>print.c: the column width tracker\<close>

text \<open>\<open>struct max_per_col\<close>: \<open>max_width\<close> points to \<open>cols\<close> shorts. The widths are
  counts of bytes of a record that fits a buffer of \<open>LINE_SIZE\<close> bytes, so they are
  modelled as natural numbers.\<close>

record max_per_col =
  max_width :: "nat list"
  cols :: nat

text \<open>The loop of \<open>set_max_per_col\<close>. It reads \<open>buf\<close> up to its terminating NUL (or the end
  of the list) and stops early once \<open>col\<close> has reached \<open>cols\<close>.\<close>

fun set_max_loop ::
  "string \<Rightarrow> bool \<Rightarrow> nat \<Rightarrow> nat \<Rightarrow> nat \<Rightarrow> nat list \<Rightarrow> error + (nat \<times> nat \<times> nat list)" where
  "set_max_loop [] mx cs col width mw = Inr (col, width, mw)"
| "set_max_loop (c # buf) mx cs col width mw =
     (if c = NUL \<or> \<not> col < cs then Inr (col, width, mw)
      else if c = DELIMITER then
        (if \<not> col < length mw then Inl MemoryOverrun
         else set_max_loop buf mx cs (col + 1) 0
                (if \<not> mx \<or> width > mw ! col then mw[col := width] else mw))
      else set_max_loop buf mx cs col (width + 1) mw)"

definition set_max_per_col :: "string \<Rightarrow> max_per_col \<Rightarrow> bool \<Rightarrow> error + max_per_col" where
  "set_max_per_col buf dst mx =
     (case set_max_loop buf mx (cols dst) 0 0 (max_width dst) of
        Inl e \<Rightarrow> Inl e
      | Inr (col, width, mw) \<Rightarrow>
          if col + 1 = cols dst then
            (if \<not> col < length mw then Inl MemoryOverrun
             else Inr (dst\<lparr>max_width :=
                    (if \<not> mx \<or> width > mw ! col then mw[col := width] else mw)\<rparr>))
          else Inl EntryColumnsMismatch)"

text \<open>\<open>set_max\<close>: the assertion first, then the loop over the \<open>cols\<close> positions.\<close>

definition set_max :: "max_per_col \<Rightarrow> max_per_col \<Rightarrow> error + max_per_col" where
  "set_max dst m1 =
     (if cols dst \<noteq> cols m1 then Inl AssertionFailed
      else if length (max_width dst) < cols dst \<or> length (max_width m1) < cols dst
        then Inl MemoryOverrun
      else Inr (dst\<lparr>max_width :=
             fold (\<lambda>i mw. if max_width m1 ! i > mw ! i then mw[i := max_width m1 ! i] else mw)
               [0..<cols dst] (max_width dst)\<rparr>))"

fun count_cols :: "string \<Rightarrow> nat \<Rightarrow> nat" where
  "count_cols [] n = n"
| "count_cols (c # buf) n =
     (if c = NUL then n else count_cols buf (if c = DELIMITER then n + 1 else n))"

text \<open>\<open>init_max_per_col\<close>: the freshly allocated widths are written before they are
  read (\<open>set_max_per_col\<close> is called with \<open>max = 0\<close>), so their initial content does not
  matter; the model starts them at 0.\<close>

definition init_max_per_col :: "string \<Rightarrow> error + max_per_col" where
  "init_max_per_col buf =
     (let n = count_cols buf 0 + 1
      in set_max_per_col buf \<lparr>max_width = replicate n 0, cols = n\<rparr> False)"

definition update_max_per_col :: "string \<Rightarrow> max_per_col \<Rightarrow> error + max_per_col" where
  "update_max_per_col buf dst = set_max_per_col buf dst True"

text \<open>The fields of a record: the pieces of the C string between the delimiters.\<close>

fun split_fields :: "string \<Rightarrow> string list" where
  "split_fields [] = [[]]"
| "split_fields (c # s) =
     (if c = DELIMITER then [] # split_fields s
      else (case split_fields s of [] \<Rightarrow> [[c]] | f # fs \<Rightarrow> (c # f) # fs))"

section \<open>print.c: writing into the record buffer\<close>

text \<open>The cursor \<open>buf_ptr\<close> and the counter \<open>remain\<close>: \<open>out\<close> is what has been stored
  in the buffer so far.\<close>

record pbuf =
  out :: string
  remain :: nat

definition print_char :: "pbuf \<Rightarrow> char \<Rightarrow> pbuf" where
  "print_char s c =
     (if remain s \<ge> 1 then s\<lparr>out := out s @ [c], remain := remain s - 1\<rparr> else s)"

definition print_delim :: "pbuf \<Rightarrow> pbuf" where
  "print_delim s = print_char s DELIMITER"

text \<open>\<open>snprintf(*buf_ptr, *remain, ...)\<close> followed by \<open>*buf_ptr += printed; *remain -=
  printed\<close>, for a text of \<open>printed\<close> bytes. \<open>snprintf\<close> stores at most \<open>remain - 1\<close> bytes and
  a NUL. When the text is longer than \<open>remain\<close> the cursor leaves the buffer and the
  unsigned \<open>remain\<close> wraps around, so every later write lands outside the buffer.\<close>

definition snprintf_advance :: "pbuf \<Rightarrow> string \<Rightarrow> error + pbuf" where
  "snprintf_advance s txt =
     (let printed = length txt
      in if printed < remain s then Inr (s\<lparr>out := out s @ txt, remain := remain s - printed\<rparr>)
         else if printed = remain s then
           Inr (s\<lparr>out := out s @ take (printed - 1) txt @ (if printed > 0 then [NUL] else []),
                  remain := 0\<rparr>)
         else Inl MemoryOverrun)"

text \<open>The conversion \<open>%lu\<close>.\<close>

definition digit_char :: "nat \<Rightarrow> char" where
  "digit_char d = ''0123456789'' ! d"

function dec :: "nat \<Rightarrow> string" where
  "dec n = (if n < 10 then [digit_char n] else dec (n div 10) @ [digit_char (n mod 10)])"
  by pat_completeness auto
termination
  by (relation "measure id") auto

declare dec.simps [simp del]

definition print_size_dec :: "pbuf \<Rightarrow> nat \<Rightarrow> error + pbuf" where
  "print_size_dec s sz = snprintf_advance s (dec sz)"

definition print_inode :: "pbuf \<Rightarrow> stat \<Rightarrow> error + pbuf" where
  "print_inode s st = print_size_dec s (st_ino st)"

text \<open>\<open>print_size_kilo\<close>: \<open>unsigned long\<close> arithmetic; the increment cannot overflow
  because the quotient is below \<open>2 ^ 54\<close>.\<close>

definition print_size_kilo :: "pbuf \<Rightarrow> nat \<Rightarrow> error + pbuf" where
  "print_size_kilo s sz =
     (let kilo = sz div 1024;
          kilo = (if sz mod 1024 > 0 then kilo + 1 else kilo)
      in print_size_dec s kilo)"

section \<open>print.c: the environment\<close>

text \<open>What the program asks of the system and of the C library: the value \<open>atol\<close> gives for
  the variables \<open>BLOCKSIZE\<close> and \<open>COLUMNS\<close> (\<open>None\<close> when the variable is not set), the
  user and group databases, \<open>lstat\<close>, \<open>readlink\<close>, the clock, \<open>localtime\<close> and
  \<open>strftime\<close> (together: the text for a format and a time, or \<open>None\<close> when \<open>localtime\<close>
  fails).\<close>

record env =
  env_BLOCKSIZE :: "int option"
  env_COLUMNS :: "int option"
  sys_getpwuid :: "nat \<Rightarrow> string option"
  sys_getgrgid :: "nat \<Rightarrow> string option"
  sys_lstat :: "string \<Rightarrow> stat option"
  sys_readlink :: "string \<Rightarrow> string option"
  sys_time :: "int option"
  sys_strftime :: "string \<Rightarrow> int \<Rightarrow> string option"

text \<open>The result of \<open>atol\<close> is stored in a \<open>size_t\<close>, so the test \<open>blocksizeint <= 0\<close> is
  a test for zero.\<close>

definition get_block_size :: "env \<Rightarrow> nat" where
  "get_block_size e =
     (case env_BLOCKSIZE e of
        None \<Rightarrow> DEFAULT_BLOCK_SIZE
      | Some v \<Rightarrow>
          (let blocksizeint = nat (v mod 2 ^ 64)
           in if blocksizeint \<le> 0 then DEFAULT_BLOCK_SIZE else blocksizeint))"

definition get_columns :: "env \<Rightarrow> nat" where
  "get_columns e =
     (case env_COLUMNS e of
        None \<Rightarrow> TTY_COLUMNS
      | Some v \<Rightarrow>
          (let columns = nat (v mod 2 ^ 64)
           in if columns \<le> 0 then TTY_COLUMNS else columns))"

text \<open>The conversion of a \<open>size_t\<close> to \<open>int\<close> (\<open>columns = get_columns()\<close>).\<close>

definition int_of_size_t :: "nat \<Rightarrow> int" where
  "int_of_size_t n = (let m = n mod 2 ^ 32 in if m < 2 ^ 31 then int m else int m - 2 ^ 32)"

section \<open>print.c: sizes\<close>

text \<open>The \<open>double\<close> values of \<open>print_size_human\<close> are rationals here. The conversion of an
  \<open>unsigned long\<close> rounds to 53 significant bits (to nearest, ties to even); dividing by
  1024 only changes the exponent and is exact.\<close>

function bit_length :: "nat \<Rightarrow> nat" where
  "bit_length n = (if n = 0 then 0 else 1 + bit_length (n div 2))"
  by pat_completeness auto
termination
  by (relation "measure id") auto

declare bit_length.simps [simp del]

definition double_of_ulong :: "nat \<Rightarrow> rat" where
  "double_of_ulong n =
     (if n < 2 ^ 53 then of_nat n
      else (let e = bit_length n - 53;
                q = n div 2 ^ e;
                r = n mod 2 ^ e
            in of_nat ((if 2 * r > 2 ^ e \<or> (2 * r = 2 ^ e \<and> odd q) then q + 1 else q) * 2 ^ e)))"

text \<open>The conversion \<open>%.*f\<close> of a non-negative value: the decimal expansion rounded to
  \<open>prec\<close> fractional digits, to nearest with ties to even.\<close>

definition round_half_even :: "rat \<Rightarrow> nat" where
  "round_half_even x =
     (let f = nat \<lfloor>x\<rfloor>; frac = x - of_nat f
      in if frac < 1 / 2 then f else if frac > 1 / 2 then f + 1
         else if even f then f else f + 1)"

definition printf_f :: "nat \<Rightarrow> rat \<Rightarrow> string" where
  "printf_f prec x =
     (let m = round_half_even (x * 10 ^ prec);
          ip = m div 10 ^ prec;
          fp = dec (m mod 10 ^ prec)
      in dec ip @ (if prec = 0 then [] else ''.'' @ replicate (prec - length fp) (CHR ''0'') @ fp))"

text \<open>The loop \<open>while (result >= 1000) { result /= 1024; unit++; }\<close>.\<close>

function human_loop :: "rat \<Rightarrow> nat \<Rightarrow> rat \<times> nat" where
  "human_loop result u = (if result \<ge> 1000 then human_loop (result / 1024) (u + 1) else (result, u))"
  by pat_completeness auto
termination
proof (relation "measure (\<lambda>(r, u). nat \<lceil>r\<rceil>)")
  fix result :: rat and u :: nat
  assume r: "1000 \<le> result"
  then have "result / 1024 \<le> result - 1" by simp
  then have "\<lceil>result / 1024\<rceil> \<le> \<lceil>result - 1\<rceil>" by (rule ceiling_mono)
  moreover have "0 < \<lceil>result\<rceil>" using r by (simp add: ceiling_less_iff less_ceiling_iff)
  ultimately show "((result / 1024, u + 1), (result, u)) \<in> measure (\<lambda>(r, u). nat \<lceil>r\<rceil>)"
    by simp
qed simp

declare human_loop.simps [simp del]

definition units :: string where
  "units = ''BKMGTPE''"

definition print_size_human :: "pbuf \<Rightarrow> nat \<Rightarrow> error + pbuf" where
  "print_size_human s sz =
     (let (result, u) = human_loop (double_of_ulong sz) 0;
          fracdigits = (if result \<ge> 10 \<or> result = 0 then 0 else 1)
      in case snprintf_advance s (printf_f fracdigits result) of
           Inl e \<Rightarrow> Inl e
         | Inr s' \<Rightarrow> Inr (if u > 0 \<and> u < length units then print_char s' (units ! u) else s'))"

text \<open>\<open>blkcnt_t_to_bytes\<close>: the product is taken in \<open>unsigned long\<close>.\<close>

definition blkcnt_t_to_bytes :: "env \<Rightarrow> int \<Rightarrow> nat" where
  "blkcnt_t_to_bytes e blks = nat ((blks * int (get_block_size e)) mod 2 ^ 64)"

text \<open>\<open>blkcnt_t_to_blocks\<close> computes in \<open>double\<close>. \<open>round_double\<close> is the rounding of an
  exact result to a \<open>double\<close>: 53 significant bits, to nearest, ties to even;
  \<open>binary_exponent a\<close> is the \<open>k\<close> with \<open>2^k \<le> a < 2^(k+1)\<close>. The quotients of this function
  lie between \<open>2^-64\<close> and \<open>2^63\<close>, far inside the exponent range of a \<open>double\<close>, so the
  model has neither overflow nor subnormal numbers.\<close>

definition pow2 :: "int \<Rightarrow> rat" where
  "pow2 k = (if 0 \<le> k then 2 ^ nat k else 1 / 2 ^ nat (- k))"

definition binary_exponent :: "rat \<Rightarrow> int" where
  "binary_exponent a =
     (if 1 \<le> a then int (bit_length (nat \<lfloor>a\<rfloor>)) - 1
      else - int (bit_length (nat (\<lceil>1 / a\<rceil> - 1))))"

definition round_double :: "rat \<Rightarrow> rat" where
  "round_double x =
     (if x = 0 then 0
      else (let e = binary_exponent \<bar>x\<bar> - 52;
                y = \<bar>x\<bar> / pow2 e;
                f = \<lfloor>y\<rfloor>;
                m = (if y - of_int f < 1 / 2 then f
                     else if y - of_int f > 1 / 2 then f + 1
                     else if even f then f else f + 1)
            in sgn x * of_int m * pow2 e))"

text \<open>The conversion of a \<open>blkcnt_t\<close> (a signed integer of 64 bits) to \<open>double\<close>, and of a
  \<open>double\<close> to \<open>unsigned long\<close>: the fraction is dropped, and C leaves the conversion
  undefined when what is left is not a value of \<open>unsigned long\<close>.\<close>

definition double_of_long :: "int \<Rightarrow> rat" where
  "double_of_long n = round_double (of_int n)"

definition ulong_of_double :: "rat \<Rightarrow> error + nat" where
  "ulong_of_double x =
     (if - 1 < x \<and> x < 2 ^ 64 then Inr (nat \<lfloor>x\<rfloor>) else Inl UndefinedConversion)"

definition blkcnt_t_to_blocks :: "env \<Rightarrow> int \<Rightarrow> error + nat" where
  "blkcnt_t_to_blocks e blks =
     (let blocksize = get_block_size e;
          res = round_double
                  (round_double (double_of_long blks / double_of_ulong blocksize) * 512)
      in case ulong_of_double res of
           Inl er \<Rightarrow> Inl er
         | Inr t \<Rightarrow>
             ulong_of_double
               (if round_double (res - double_of_ulong t) > 0 then round_double (res + 1)
                else res))"

definition print_blks :: "pbuf \<Rightarrow> int \<Rightarrow> flags \<Rightarrow> env \<Rightarrow> error + pbuf" where
  "print_blks s blocks flag e =
     (if hflag flag \<or> kflag flag then
        (let bytes = blkcnt_t_to_bytes e blocks
         in if hflag flag then print_size_human s bytes else print_size_kilo s bytes)
      else
        (case blkcnt_t_to_blocks e blocks of
           Inl er \<Rightarrow> Inl er
         | Inr real_blocks \<Rightarrow> print_size_dec s real_blocks))"

section \<open>print.c: the fields of a record\<close>

definition print_type_symbol :: "pbuf \<Rightarrow> stat \<Rightarrow> flags \<Rightarrow> pbuf" where
  "print_type_symbol s st flag =
     (let t = st_mode st AND S_IFMT
      in if t = S_IFDIR then print_char s (CHR ''/'')
         else if t = S_IFIFO then print_char s (CHR ''|'')
         else if t = S_IFLNK then
           (if \<not> (lflag flag \<or> nflag flag) then print_char s (CHR ''@'') else s)
         else if t = S_IFSOCK then print_char s (CHR ''='')
         else if t = S_IFWHT then print_char s (CHR ''%'')
         else if st_mode st AND (S_IXUSR OR S_IXGRP OR S_IXOTH) \<noteq> 0
           then print_char s (CHR ''*'')
         else s)"

text \<open>\<open>full_path\<close> of util.c: the result is built in \<open>PATH_MAX\<close> bytes.\<close>

definition full_path :: "string \<Rightarrow> string \<Rightarrow> error + string" where
  "full_path dir nm =
     (let len = strlen dir
      in if len + NAME_MAX + 2 > PATH_MAX then Inl PathTooLong
         else if strlen nm > 0 then
           (let sep = (if len > 0 \<and> last (c_string dir) \<noteq> CHR ''/'' then ''/'' else [])
            in if len + length sep + strlen nm + 1 > PATH_MAX then Inl MemoryOverrun
               else Inr (c_string dir @ sep @ c_string nm))
         else Inr (c_string dir))"

text \<open>\<open>print_link\<close>: \<open>readlink\<close> stores at most \<open>st_size + 1\<close> bytes of the target and no NUL;
  the NUL is put at \<open>linkname[st_size]\<close>, so a target shorter than \<open>st_size\<close> leaves bytes
  of \<open>linkname\<close> unwritten.\<close>

definition print_link :: "pbuf \<Rightarrow> string \<Rightarrow> string \<Rightarrow> stat \<Rightarrow> flags \<Rightarrow> env \<Rightarrow> error + pbuf" where
  "print_link s dir nm st flag e =
     (case full_path dir nm of
        Inl er \<Rightarrow> Inl er
      | Inr path \<Rightarrow>
          (case sys_readlink e path of
             None \<Rightarrow> Inl ReadlinkError
           | Some target \<Rightarrow>
               (let sz = nat (st_size st);
                    r = min (length target) (sz + 1)
                in if r > sz then Inl SymlinkGrew
                   else if r < sz then Inl UninitializedRead
                   else
                     (let linkname = c_string target
                      in case snprintf_advance s ('' -> '' @ linkname) of
                           Inl er \<Rightarrow> Inl er
                         | Inr s' \<Rightarrow>
                             if Fflag flag then
                               (let link_dir = (if take 1 linkname = ''/'' then [] else dir)
                                in case full_path link_dir linkname of
                                     Inl er \<Rightarrow> Inl er
                                   | Inr link_path \<Rightarrow>
                                       (case sys_lstat e link_path of
                                          Some link_sb \<Rightarrow> Inr (print_type_symbol s' link_sb flag)
                                        | None \<Rightarrow> Inr s'))
                             else Inr s'))))"

definition print_linkc :: "pbuf \<Rightarrow> stat \<Rightarrow> error + pbuf" where
  "print_linkc s st = print_size_dec s (st_nlink st)"

text \<open>\<open>isprint\<close> of the C locale.\<close>

definition isprint :: "char \<Rightarrow> bool" where
  "isprint c = (32 \<le> (of_char c :: nat) \<and> (of_char c :: nat) \<le> 126)"

definition print_name :: "pbuf \<Rightarrow> string \<Rightarrow> flags \<Rightarrow> pbuf" where
  "print_name s nm flag =
     fold (\<lambda>c s. print_char s (if qflag flag \<and> \<not> wflag flag \<and> \<not> isprint c then CHR ''?'' else c))
       (c_string nm) s"

definition print_owner :: "pbuf \<Rightarrow> stat \<Rightarrow> flags \<Rightarrow> env \<Rightarrow> error + pbuf" where
  "print_owner s st flag e =
     (case (if nflag flag then None else sys_getpwuid e (st_uid st)) of
        Some pw_name \<Rightarrow> Inr (print_name s pw_name flag)
      | None \<Rightarrow> print_size_dec s (st_uid st))"

definition print_group :: "pbuf \<Rightarrow> stat \<Rightarrow> flags \<Rightarrow> env \<Rightarrow> error + pbuf" where
  "print_group s st flag e =
     (case (if nflag flag then None else sys_getgrgid e (st_gid st)) of
        Some gr_name \<Rightarrow> Inr (print_name s gr_name flag)
      | None \<Rightarrow> print_size_dec s (st_gid st))"

text \<open>\<open>major\<close> and \<open>minor\<close> as the GNU C library defines them.\<close>

definition major :: "64 word \<Rightarrow> nat" where
  "major dev = unat ((drop_bit 32 dev AND 0xFFFFF000) OR (drop_bit 8 dev AND 0x00000FFF))"

definition minor :: "64 word \<Rightarrow> nat" where
  "minor dev = unat ((drop_bit 12 dev AND 0xFFFFFF00) OR (dev AND 0x000000FF))"

definition print_size :: "pbuf \<Rightarrow> stat \<Rightarrow> flags \<Rightarrow> error + pbuf" where
  "print_size s st flag =
     (let sz = nat (st_size st mod 2 ^ 64)
      in if S_ISBLK (st_mode st) \<or> S_ISCHR (st_mode st) then
           (case print_size_dec s (major (st_rdev st)) of
              Inl er \<Rightarrow> Inl er
            | Inr s1 \<Rightarrow> print_size_dec (print_char s1 (CHR '','')) (minor (st_rdev st)))
         else if hflag flag then print_size_human s sz
         else if kflag flag then print_size_kilo s sz
         else print_size_dec s sz)"

definition print_time :: "pbuf \<Rightarrow> stat \<Rightarrow> flags \<Rightarrow> env \<Rightarrow> error + pbuf" where
  "print_time s st flag e =
     (let tmt = (if cflag flag then st_ctime st else if uflag flag then st_atime st else st_mtime st)
      in case sys_time e of
           None \<Rightarrow> Inl TimeError
         | Some current \<Rightarrow>
             (case sys_strftime e
                     (if current - tmt < 6 * 30 * 24 * 60 * 60 then ''%b %d %H:%M'' else ''%b %d %Y'')
                     tmt of
                None \<Rightarrow> Inl LocaltimeError
              | Some txt \<Rightarrow>
                  if length txt = 0 \<or> length txt \<ge> 200 then Inl StrftimeError
                  else snprintf_advance s (c_string txt)))"

text \<open>\<open>strmode\<close> of libbsd (\<open>bsd/string.h\<close>), of which \<open>print_long\<close> keeps the first
  ten characters. The library knows a white-out only where the system headers define
  \<open>S_IFWHT\<close>; print.h has to define \<open>_S_IFWHT\<close> itself, so here a white-out gets the letter
  of an unknown type.\<close>

definition strmode :: "mode_t \<Rightarrow> string" where
  "strmode m =
     [let t = m AND S_IFMT
      in if t = S_IFDIR then CHR ''d'' else if t = S_IFCHR then CHR ''c''
         else if t = S_IFBLK then CHR ''b'' else if t = S_IFREG then CHR ''-''
         else if t = S_IFLNK then CHR ''l'' else if t = S_IFSOCK then CHR ''s''
         else if t = S_IFIFO then CHR ''p'' else CHR ''?'',
      if m AND S_IRUSR \<noteq> 0 then CHR ''r'' else CHR ''-'',
      if m AND S_IWUSR \<noteq> 0 then CHR ''w'' else CHR ''-'',
      if m AND S_ISUID \<noteq> 0
        then (if m AND S_IXUSR \<noteq> 0 then CHR ''s'' else CHR ''S'')
        else (if m AND S_IXUSR \<noteq> 0 then CHR ''x'' else CHR ''-''),
      if m AND S_IRGRP \<noteq> 0 then CHR ''r'' else CHR ''-'',
      if m AND S_IWGRP \<noteq> 0 then CHR ''w'' else CHR ''-'',
      if m AND S_ISGID \<noteq> 0
        then (if m AND S_IXGRP \<noteq> 0 then CHR ''s'' else CHR ''S'')
        else (if m AND S_IXGRP \<noteq> 0 then CHR ''x'' else CHR ''-''),
      if m AND S_IROTH \<noteq> 0 then CHR ''r'' else CHR ''-'',
      if m AND S_IWOTH \<noteq> 0 then CHR ''w'' else CHR ''-'',
      if m AND S_ISVTX \<noteq> 0
        then (if m AND S_IXOTH \<noteq> 0 then CHR ''t'' else CHR ''T'')
        else (if m AND S_IXOTH \<noteq> 0 then CHR ''x'' else CHR ''-''),
      CHR '' '']"

text \<open>Sequencing of steps that can stop with an error.\<close>

definition and_then :: "error + 'a \<Rightarrow> ('a \<Rightarrow> error + 'b) \<Rightarrow> error + 'b" where
  "and_then m f = (case m of Inl e \<Rightarrow> Inl e | Inr x \<Rightarrow> f x)"

definition print_long :: "pbuf \<Rightarrow> stat \<Rightarrow> flags \<Rightarrow> env \<Rightarrow> error + pbuf" where
  "print_long s st flag e =
     (if remain s < 12 then Inl BufferTooSmallForMode
      else
        and_then (print_linkc
            (print_delim (s\<lparr>out := out s @ take 10 (strmode (st_mode st)),
                             remain := remain s - 10\<rparr>)) st) (\<lambda>s.
        and_then (print_owner (print_delim s) st flag e) (\<lambda>s.
        and_then (print_group (print_delim s) st flag e) (\<lambda>s.
        and_then (print_size (print_delim s) st flag) (\<lambda>s.
        and_then (print_time (print_delim s) st flag e) (\<lambda>s.
        Inr (print_delim s)))))))"

text \<open>\<open>print_file\<close> returns the bytes it has stored in \<open>buf\<close>; when the file is not to be
  displayed it returns before storing anything.\<close>

definition print_file ::
  "nat \<Rightarrow> string \<Rightarrow> string \<Rightarrow> stat \<Rightarrow> flags \<Rightarrow> env \<Rightarrow> error + string" where
  "print_file buf_size dir nm st flag e =
     (if \<not> dflag flag \<and> \<not> display_file dir nm flag then Inr []
      else
        and_then (if iflag flag
                  then and_then (print_inode \<lparr>out = [], remain = buf_size\<rparr> st)
                         (\<lambda>s. Inr (print_delim s))
                  else Inr \<lparr>out = [], remain = buf_size\<rparr>) (\<lambda>s.
        and_then (if sflag flag
                  then and_then (print_blks s (st_blocks st) flag e) (\<lambda>s. Inr (print_delim s))
                  else Inr s) (\<lambda>s.
        and_then (if lflag flag \<or> nflag flag then print_long s st flag e else Inr s) (\<lambda>s.
        and_then (Inr (print_name s nm flag)) (\<lambda>s.
        and_then (Inr (if Fflag flag then print_type_symbol s st flag else s)) (\<lambda>s.
        and_then (if (lflag flag \<or> nflag flag) \<and> S_ISLNK (st_mode st)
                  then print_link s dir nm st flag e else Inr s) (\<lambda>s.
        Inr (out (print_char s NUL)))))))))"

text \<open>The fields \<open>print_file\<close> stores before the name: the inode number, the blocks and the
  long format, each when its flag asks for it. The result is the state of the buffer when
  \<open>print_file\<close> comes to the name.\<close>

definition record_fields :: "nat \<Rightarrow> stat \<Rightarrow> flags \<Rightarrow> env \<Rightarrow> error + pbuf" where
  "record_fields buf_size st flag e =
     and_then (if iflag flag
               then and_then (print_inode \<lparr>out = [], remain = buf_size\<rparr> st)
                      (\<lambda>s. Inr (print_delim s))
               else Inr \<lparr>out = [], remain = buf_size\<rparr>) (\<lambda>s.
     and_then (if sflag flag
               then and_then (print_blks s (st_blocks st) flag e) (\<lambda>s. Inr (print_delim s))
               else Inr s) (\<lambda>s.
     if lflag flag \<or> nflag flag then print_long s st flag e else Inr s))"

text \<open>Reading a buffer as a C string needs its terminating NUL.\<close>

definition buffer_string :: "string \<Rightarrow> error + string" where
  "buffer_string bytes = (if NUL \<in> set bytes then Inr (c_string bytes) else Inl UnterminatedBuffer)"

section \<open>print.c: printing a record in columns\<close>

text \<open>A \<open>for\<close> loop whose body can stop the program: the body is run for each index in
  turn, on the state the previous one left.\<close>

fun for_each :: "'a list \<Rightarrow> ('a \<Rightarrow> 's \<Rightarrow> error + 's) \<Rightarrow> 's \<Rightarrow> error + 's" where
  "for_each [] body s = Inr s"
| "for_each (x # xs) body s =
     (case body x s of Inl e \<Rightarrow> Inl e | Inr s' \<Rightarrow> for_each xs body s')"

text \<open>\<open>print_buf\<close> writes to the standard output; the model returns the characters written.
  \<open>stdout\<close> is the output so far.\<close>

fun print_buf_loop ::
  "string \<Rightarrow> max_per_col \<Rightarrow> nat \<Rightarrow> nat \<Rightarrow> string \<Rightarrow> error + (nat \<times> nat \<times> string)" where
  "print_buf_loop [] widths col printed stdout = Inr (col, printed, stdout)"
| "print_buf_loop (c # buf) widths col printed stdout =
     (if c = NUL \<or> \<not> col < cols widths then Inr (col, printed, stdout)
      else if c = DELIMITER then
        (if \<not> col < length (max_width widths) then Inl MemoryOverrun
         else print_buf_loop buf widths (col + 1) 0
                (stdout @ replicate (max_width widths ! col - printed) (CHR '' '') @ '' ''))
      else print_buf_loop buf widths col (printed + 1) (stdout @ [c]))"

definition print_buf :: "string \<Rightarrow> max_per_col \<Rightarrow> bool \<Rightarrow> string \<Rightarrow> error + string" where
  "print_buf buf widths newline stdout =
     (case print_buf_loop buf widths 0 0 stdout of
        Inl e \<Rightarrow> Inl e
      | Inr (col, printed, stdout) \<Rightarrow>
          if newline then Inr (stdout @ [CHR 0x0A])
          else if col + 1 = cols widths then
            (if \<not> col < length (max_width widths) then Inl MemoryOverrun
             else Inr (stdout @ replicate (max_width widths ! col - printed) (CHR '' '') @ '' ''))
          else Inr stdout)"

section \<open>print.c: the grid\<close>

text \<open>The variables of the width-fitting loop of \<open>print_dir\<close>.\<close>

record grid =
  curr_col :: nat
  curr_row :: nat
  max_col_width :: "max_per_col list"

definition reset_widths :: "max_per_col list \<Rightarrow> max_per_col list" where
  "reset_widths mcw =
     map (\<lambda>t. t\<lparr>max_width := fold (\<lambda>j mw. mw[j := 1]) [0..<cols t] (max_width t)\<rparr>) mcw"

definition assign_widths ::
  "flags \<Rightarrow> nat \<Rightarrow> nat \<Rightarrow> max_per_col list \<Rightarrow> max_per_col list \<Rightarrow> error + max_per_col list" where
  "assign_widths flag col row entryc_width mcw =
     for_each [0..<length entryc_width]
       (\<lambda>i mcw.
          let coli = (if Cflag flag then i div row else i mod col)
          in if \<not> coli < length mcw then Inl MemoryOverrun
             else case set_max (mcw ! coli) (entryc_width ! i) of
                    Inl e \<Rightarrow> Inl e
                  | Inr t \<Rightarrow> Inr (mcw[coli := t]))
       mcw"

definition count_chars :: "nat \<Rightarrow> max_per_col list \<Rightarrow> max_per_col list \<Rightarrow> int" where
  "count_chars col entryc_width mcw =
     (\<Sum>i\<leftarrow>[0..<col]. \<Sum>j\<leftarrow>[0..<cols (mcw ! i)]. int (max_width (mcw ! i) ! j))
       + (int col * int (cols (entryc_width ! 0)) - 1)"

text \<open>One pass through the body of the \<open>do ... while (!fits)\<close> loop. The result says whether
  the loop is left (by \<open>break\<close> or because the row fits) and gives the variables after the
  pass.\<close>

definition grid_pass ::
  "flags \<Rightarrow> int \<Rightarrow> max_per_col list \<Rightarrow> grid \<Rightarrow> error + (bool \<times> grid)" where
  "grid_pass flag columns entryc_width g =
     (let entryc = length entryc_width
      in if (if Cflag flag then curr_row g else curr_col g) = 0 then Inl DivisionByZero
         else
           (let col = (if Cflag flag
                       then entryc div curr_row g + (if entryc mod curr_row g \<noteq> 0 then 1 else 0)
                       else curr_col g);
                row = (if Cflag flag then curr_row g
                       else entryc div curr_col g + (if entryc mod curr_col g \<noteq> 0 then 1 else 0))
            in case assign_widths flag col row entryc_width (reset_widths (max_col_width g)) of
                 Inl e \<Rightarrow> Inl e
               | Inr mcw \<Rightarrow>
                   if (Cflag flag \<and> row = entryc) \<or> (xflag flag \<and> col = 1)
                   then Inr (True, \<lparr>curr_col = col, curr_row = row, max_col_width = mcw\<rparr>)
                   else if \<not> col \<le> length mcw then Inl MemoryOverrun
                   else
                     (let chars = count_chars col entryc_width mcw;
                          fits = (chars \<le> columns)
                      in if fits
                         then Inr (True, \<lparr>curr_col = col, curr_row = row, max_col_width = mcw\<rparr>)
                         else Inr (False,
                                \<lparr>curr_col = (if Cflag flag then col else col - 1),
                                 curr_row = (if Cflag flag then row + 1 else row),
                                 max_col_width = mcw\<rparr>))))"

text \<open>The loop itself. \<open>n\<close> counts the passes made so far; the result carries the number
  of passes the loop has made when it is left.\<close>

partial_function (option) grid_search ::
  "flags \<Rightarrow> int \<Rightarrow> max_per_col list \<Rightarrow> grid \<Rightarrow> nat \<Rightarrow> (error + (grid \<times> nat)) option" where
  "grid_search flag columns entryc_width g n =
     (case grid_pass flag columns entryc_width g of
        Inl e \<Rightarrow> Some (Inl e)
      | Inr (leave, g') \<Rightarrow>
          if leave then Some (Inr (g', n + 1))
          else grid_search flag columns entryc_width g' (n + 1))"

text \<open>The two printing loops of \<open>print_dir\<close>, on the records \<open>bufs\<close> of the entries.\<close>

definition print_columns_down :: "string list \<Rightarrow> grid \<Rightarrow> error + string" where
  "print_columns_down bufs g =
     for_each [0..<curr_row g]
       (\<lambda>i. for_each [0..<curr_col g]
          (\<lambda>j stdout.
             let p = i + j * curr_row g
             in if p < length bufs then
                  (if \<not> j < length (max_col_width g) then Inl MemoryOverrun
                   else print_buf (bufs ! p) (max_col_width g ! j) (j = curr_col g - 1) stdout)
                else Inr (stdout @ [CHR 0x0A])))
       []"

definition print_rows_across :: "string list \<Rightarrow> grid \<Rightarrow> error + string" where
  "print_rows_across bufs g =
     (if curr_col g = 0 then Inl DivisionByZero
      else for_each [0..<length bufs]
        (\<lambda>i stdout.
           let coli = i mod curr_col g
           in if \<not> coli < length (max_col_width g) then Inl MemoryOverrun
              else print_buf (bufs ! i) (max_col_width g ! coli)
                     (coli = curr_col g - 1 \<or> i = length bufs - 1) stdout)
        [])"

text \<open>\<open>print_dir\<close> from the point where the record of every entry has been built:
  \<open>bufs\<close> are the records, \<open>columns\<close> the width of the terminal.\<close>

definition print_grid :: "flags \<Rightarrow> int \<Rightarrow> string list \<Rightarrow> (error + string) option" where
  "print_grid flag columns bufs =
     (case for_each bufs (\<lambda>buf ws. and_then (init_max_per_col buf) (\<lambda>w. Inr (ws @ [w]))) [] of
        Inl e \<Rightarrow> Some (Inl e)
      | Inr entryc_width \<Rightarrow>
          (case grid_search flag columns entryc_width
                  \<lparr>curr_col = length bufs, curr_row = 1, max_col_width = entryc_width\<rparr> 0 of
             None \<Rightarrow> None
           | Some (Inl e) \<Rightarrow> Some (Inl e)
           | Some (Inr (g, n)) \<Rightarrow>
               Some (if Cflag flag then print_columns_down bufs g else print_rows_across bufs g)))"

text \<open>The record of one entry as the loops of \<open>print_dir\<close> and \<open>print_entries\<close> read it.
  For an entry that is not to be displayed \<open>print_file\<close> returns before storing anything,
  and the loop goes on to read the buffer as it was before the call: \<open>prev\<close> is the record
  stored there last, if any; without one the loop reads bytes that were never written.\<close>

definition entry_record ::
  "string option \<Rightarrow> string \<Rightarrow> flags \<Rightarrow> env \<Rightarrow> file_entry \<Rightarrow> error + string" where
  "entry_record prev dir flag e entry =
     (if \<not> dflag flag \<and> \<not> display_file dir (name entry) flag
      then (case prev of None \<Rightarrow> Inl UninitializedRead | Some buf \<Rightarrow> Inr buf)
      else and_then (print_file LINE_SIZE dir (name entry) (sb entry) flag e) buffer_string)"

text \<open>\<open>print_dir\<close> declares the buffer in the body of each of its loops, so no record of an
  earlier entry is in it when \<open>print_file\<close> is called.\<close>

definition print_dir :: "string \<Rightarrow> file_entry list \<Rightarrow> flags \<Rightarrow> env \<Rightarrow> (error + string) option" where
  "print_dir dir entries flag e =
     (if \<not> Cflag flag \<and> \<not> xflag flag then Some (Inl NoGridFlag)
      else if length entries = 0 then Some (Inr [])
      else if \<not> ((Cflag flag \<or> xflag flag) \<and> \<not> (Cflag flag \<and> xflag flag))
        then Some (Inl AssertionFailed)
      else case for_each entries
                  (\<lambda>entry bufs. and_then (entry_record None dir flag e entry)
                                   (\<lambda>buf. Inr (bufs @ [buf])))
                  [] of
             Inl er \<Rightarrow> Some (Inl er)
           | Inr bufs \<Rightarrow> print_grid flag (int_of_size_t (get_columns e)) bufs)"

text \<open>\<open>print_entries\<close>: the grid, or one record per line with the widths of the whole
  batch. The two loops of the second case share one buffer, declared before them: the
  state of each loop carries the record that is in it.\<close>

definition print_entries ::
  "string \<Rightarrow> file_entry list \<Rightarrow> flags \<Rightarrow> env \<Rightarrow> (error + string) option" where
  "print_entries dir entries flag e =
     (if Cflag flag \<or> xflag flag then print_dir dir entries flag e
      else Some
        (and_then
           (for_each [0..<length entries]
              (\<lambda>i (prev, max_widths).
                 and_then (entry_record prev dir flag e (entries ! i)) (\<lambda>buf.
                 and_then (if i = 0 then init_max_per_col buf
                           else update_max_per_col buf max_widths) (\<lambda>max_widths.
                 Inr (Some buf, max_widths))))
              (None, \<lparr>max_width = [], cols = 0\<rparr>))
           (\<lambda>(prev, max_widths).
              and_then
                (for_each [0..<length entries]
                   (\<lambda>i (prev, stdout).
                      and_then (entry_record prev dir flag e (entries ! i)) (\<lambda>buf.
                      and_then (print_buf buf max_widths True stdout) (\<lambda>stdout.
                      Inr (Some buf, stdout))))
                   (prev, []))
                (\<lambda>(prev, stdout). Inr stdout))))"

section \<open>Relations between buffer states\<close>

text \<open>\<open>advances s s'\<close>: \<open>s'\<close> comes after \<open>s\<close> in the same buffer. The cursor has moved by
  what \<open>remain\<close> has lost, and while room is left nothing has been dropped: the content
  of \<open>s\<close> is still there, followed by what was written since.\<close>

definition advances :: "pbuf \<Rightarrow> pbuf \<Rightarrow> bool" where
  "advances s s' =
     (length (out s') + remain s' = length (out s) + remain s \<and> remain s' \<le> remain s
      \<and> (if 1 \<le> remain s' then take (length (out s)) (out s') = out s else True))"

text \<open>The name as \<open>print_name\<close> renders it, and the symbol \<open>print_type_symbol\<close> writes when
  there is room for it.\<close>

definition rendered_name :: "string \<Rightarrow> flags \<Rightarrow> string" where
  "rendered_name nm flag =
     map (\<lambda>c. if qflag flag \<and> \<not> wflag flag \<and> \<not> isprint c then CHR ''?'' else c) (c_string nm)"

definition type_symbol :: "stat \<Rightarrow> flags \<Rightarrow> string" where
  "type_symbol st flag = out (print_type_symbol \<lparr>out = [], remain = 1\<rparr> st flag)"

section \<open>What the grid is measured against\<close>

text \<open>The tracker \<open>init_max_per_col\<close> builds for a record: the widths of its fields.\<close>

definition record_widths :: "string \<Rightarrow> max_per_col" where
  "record_widths buf =
     \<lparr>max_width = map length (split_fields (c_string buf)),
      cols = length (split_fields (c_string buf))\<rparr>"

text \<open>The width of a record printed on its own, one space between its fields.\<close>

definition record_width :: "string \<Rightarrow> nat" where
  "record_width buf = length (c_string buf)"

text \<open>The grid column \<open>print_dir\<close> gives entry \<open>i\<close> (its variable \<open>coli\<close>).\<close>

definition grid_column :: "flags \<Rightarrow> nat \<Rightarrow> nat \<Rightarrow> nat \<Rightarrow> nat" where
  "grid_column flag col row i = (if Cflag flag then i div row else i mod col)"

text \<open>The width of field \<open>j\<close> of grid column \<open>c\<close>: the largest of 1 and the widths of field
  \<open>j\<close> of the records in that column. \<open>grid_widths\<close> are the trackers of all grid columns,
  for records of \<open>f\<close> fields.\<close>

definition column_width :: "flags \<Rightarrow> nat \<Rightarrow> nat \<Rightarrow> string list \<Rightarrow> nat \<Rightarrow> nat \<Rightarrow> nat" where
  "column_width flag col row bufs c j =
     fold max
       (map (\<lambda>i. length (split_fields (c_string (bufs ! i)) ! j))
          (filter (\<lambda>i. grid_column flag col row i = c) [0..<length bufs]))
       1"

definition grid_widths :: "flags \<Rightarrow> nat \<Rightarrow> nat \<Rightarrow> nat \<Rightarrow> string list \<Rightarrow> max_per_col list" where
  "grid_widths flag f col row bufs =
     map (\<lambda>c. \<lparr>max_width = map (column_width flag col row bufs c) [0..<f], cols = f\<rparr>)
       [0..<length bufs]"

text \<open>The width of a row of \<open>col\<close> grid columns as the code counts it, and as the
  specification words it (one separator for each grid column but the last).\<close>

definition row_width :: "flags \<Rightarrow> nat \<Rightarrow> nat \<Rightarrow> nat \<Rightarrow> string list \<Rightarrow> int" where
  "row_width flag f col row bufs =
     (\<Sum>c\<leftarrow>[0..<col]. \<Sum>j\<leftarrow>[0..<f]. int (column_width flag col row bufs c j))
       + (int col * int f - 1)"

definition claimed_row_width :: "flags \<Rightarrow> nat \<Rightarrow> nat \<Rightarrow> nat \<Rightarrow> string list \<Rightarrow> int" where
  "claimed_row_width flag f col row bufs =
     (\<Sum>c\<leftarrow>[0..<col]. \<Sum>j\<leftarrow>[0..<f]. int (column_width flag col row bufs c j))
       + (int col - 1)"

text \<open>The widest line of an output: \<open>line_scan\<close> carries the width of the line being read
  and the largest width seen so far.\<close>

definition line_scan :: "char \<Rightarrow> nat \<times> nat \<Rightarrow> nat \<times> nat" where
  "line_scan c s = (if c = CHR 0x0A then (0, snd s) else (fst s + 1, max (snd s) (fst s + 1)))"

definition max_line_width :: "string \<Rightarrow> nat" where
  "max_line_width txt = snd (fold line_scan txt (0, 0))"

text \<open>The ceiling of \<open>n / d\<close> as the loop of \<open>print_dir\<close> computes it.\<close>

definition div_up :: "nat \<Rightarrow> nat \<Rightarrow> nat" where
  "div_up n d = n div d + (if n mod d \<noteq> 0 then 1 else 0)"

section \<open>Sample entries\<close>

text \<open>The metadata of an empty regular file and of a directory, and the three entries of
  the sorting scenario (names \<open>b\<close>, \<open>A\<close>, \<open>c\<close>).\<close>

definition regular_stat :: stat where
  "regular_stat = \<lparr>st_mode = 0x81A4, st_ino = 11, st_nlink = 1, st_uid = 0, st_gid = 0,
     st_rdev = 0, st_size = 0, st_blocks = 0,
     st_atime = 0, st_mtime = 0, st_ctime = 0\<rparr>"

definition directory_stat :: stat where
  "directory_stat = \<lparr>st_mode = 0x41ED, st_ino = 12, st_nlink = 2, st_uid = 0, st_gid = 0,
     st_rdev = 0, st_size = 4096, st_blocks = 8,
     st_atime = 0, st_mtime = 0, st_ctime = 0\<rparr>"

definition entry_named :: "string \<Rightarrow> file_entry" where
  "entry_named n = \<lparr>name = n, sb = regular_stat\<rparr>"

definition sample_lstat :: "string \<Rightarrow> stat option" where
  "sample_lstat p = (if p = ''dir'' then Some directory_stat else Some regular_stat)"

text \<open>\<open>flags_init\<close> of util.c, and an environment in which no variable is set and the
  user and group databases are empty.\<close>

definition flags_init :: flags where
  "flags_init = \<lparr>Aflag = False, aflag = False, Cflag = False, cflag = False, dflag = False,
     Fflag = False, fflag = False, hflag = False, iflag = False, kflag = False, lflag = False,
     nflag = False, qflag = False, Rflag = False, rflag = False, Sflag = False, sflag = False,
     tflag = False, uflag = False, wflag = False, xflag = False, oneflag = False\<rparr>"

definition sample_env :: env where
  "sample_env = \<lparr>env_BLOCKSIZE = None, env_COLUMNS = None, sys_getpwuid = (\<lambda>uid. None),
     sys_getgrgid = (\<lambda>gid. None), sys_lstat = sample_lstat, sys_readlink = (\<lambda>path. None),
     sys_time = Some 0, sys_strftime = (\<lambda>fmt t. Some ''Jan 01 00:00'')\<rparr>"

text \<open>The records of two entries listed with their inode numbers: inode 100 with the
  name \<open>x\<close> and inode 1 with the name \<open>yyy\<close>.\<close>

definition inode_records :: "string list" where
  "inode_records = [''100'' @ [DELIMITER] @ ''x'', ''1'' @ [DELIMITER] @ ''yyy'']"

text \<open>A regular file with a name of 255 bytes, the longest a \<open>file_entry\<close> holds, whose
  owner has a name of 250 bytes: the fields of the long format before the name take 281
  bytes of the buffer.\<close>

definition long_name :: string where
  "long_name = replicate 255 (CHR ''a'')"

definition long_owner_env :: env where
  "long_owner_env = sample_env\<lparr>sys_getpwuid := \<lambda>uid. Some (replicate 250 (CHR ''u''))\<rparr>"

definition long_owner_fields :: string where
  "long_owner_fields =
     ''-rw-r--r--'' @ [DELIMITER] @ ''1'' @ [DELIMITER] @ replicate 250 (CHR ''u'')
       @ [DELIMITER] @ ''0'' @ [DELIMITER] @ ''0'' @ [DELIMITER] @ ''Jan 01 00:00''
       @ [DELIMITER]"

section \<open>The comparator\<close>

lemma tolower_NUL_iff: "(of_char (tolower x) :: nat) = 0 \<longleftrightarrow> x = NUL"
proof -
  have "x = NUL" if "(of_char x :: nat) = 0"
  proof -
    have "(of_char x :: nat) = of_char NUL" using that by (simp add: NUL_def)
    then show ?thesis by (simp only: of_char_eq_iff)
  qed
  moreover have "(of_char NUL :: nat) = 0" by (simp add: NUL_def)
  ultimately show ?thesis
    by (auto simp: tolower_def Let_def)
qed

lemma tolower_eq_NUL_iff: "tolower y = tolower NUL \<longleftrightarrow> y = NUL"
proof
  assume "tolower y = tolower NUL"
  then have "(of_char (tolower y) :: nat) = of_char (tolower NUL)" by simp
  moreover have "(of_char (tolower NUL) :: nat) = 0" by (simp add: tolower_NUL_iff)
  ultimately show "y = NUL" by (simp add: tolower_NUL_iff)
qed simp

lemma strcasecmp_swap: "strcasecmp b a = - strcasecmp a b"
proof (induction a b rule: strcasecmp.induct)
  case (4 x xs y ys)
  then show ?case
    by (auto simp: Let_def tolower_NUL_iff tolower_eq_NUL_iff dest: sym)
qed (auto simp: Let_def tolower_NUL_iff)

lemma of_char_NUL: "(of_char NUL :: nat) = 0" by (simp add: NUL_def)
lemma tolower_NUL: "tolower NUL = NUL" by (simp add: tolower_def NUL_def)
lemma tolower_is_NUL_iff: "tolower x = NUL \<longleftrightarrow> x = NUL"
  using tolower_eq_NUL_iff [of x] by (simp add: tolower_NUL)

lemmas lc_simps = Let_def tolower_NUL_iff tolower_NUL of_char_NUL tolower_is_NUL_iff

lemma strcasecmp_refl: "strcasecmp a a = 0"
  by (induction a) (auto simp: Let_def)

lemma strcasecmp_trans_le_aux:
  "strcasecmp a b \<le> 0 \<Longrightarrow> strcasecmp b c \<le> 0 \<Longrightarrow>
   strcasecmp a c \<le> 0 \<and> (strcasecmp a c = 0 \<longrightarrow> strcasecmp a b = 0 \<and> strcasecmp b c = 0)"
proof (induction a arbitrary: b c)
  case Nil
  then show ?case
    by (cases b; cases c) (auto simp: lc_simps split: if_splits)
next
  case (Cons x xs)
  show ?case
  proof (cases b)
    case Nil
    with Cons.prems show ?thesis
      by (cases c) (auto simp: lc_simps split: if_splits)
  next
    case bc: (Cons y ys)
    show ?thesis
    proof (cases c)
      case Nil
      with Cons.prems bc show ?thesis
        by (auto simp: lc_simps split: if_splits)
    next
      case cc: (Cons z zs)
      from Cons.prems bc cc Cons.IH [of ys zs] show ?thesis
        by (auto simp: lc_simps split: if_splits)
    qed
  qed
qed

lemma cmp_refl: "cmp g a a = 0"
  by (cases "sort_key g") (simp_all add: cmp_def strcasecmp_refl)

lemma cmp_swap: "cmp g b a = - cmp g a b"
  using strcasecmp_swap [where a = "name a" and b = "name b"]
  by (cases "sort_key g") (simp_all add: cmp_def Let_def)

lemma cmp_reverse: "cmp (g\<lparr>reverse := True\<rparr>) a b = - cmp (g\<lparr>reverse := False\<rparr>) a b"
  by (simp add: cmp_def Let_def)

lemma cmp_trans_le_aux:
  assumes "cmp g a b \<le> 0" and "cmp g b c \<le> 0"
  shows "cmp g a c \<le> 0 \<and> (cmp g a c = 0 \<longrightarrow> cmp g a b = 0 \<and> cmp g b c = 0)"
proof (cases "sort_key g")
  case SORT_LEXICO
  show ?thesis
  proof (cases "reverse g")
    case False
    with SORT_LEXICO assms strcasecmp_trans_le_aux [of "name a" "name b" "name c"]
    show ?thesis by (simp add: cmp_def)
  next
    case True
    with SORT_LEXICO assms have "strcasecmp (name c) (name b) \<le> 0" "strcasecmp (name b) (name a) \<le> 0"
      using strcasecmp_swap [where a = "name a" and b = "name b"]
        strcasecmp_swap [where a = "name b" and b = "name c"]
      by (simp_all add: cmp_def)
    from strcasecmp_trans_le_aux [OF this]
    show ?thesis
      using True SORT_LEXICO
        strcasecmp_swap [where a = "name a" and b = "name b"]
        strcasecmp_swap [where a = "name b" and b = "name c"]
        strcasecmp_swap [where a = "name a" and b = "name c"]
      by (simp add: cmp_def)
  qed
qed (use assms in \<open>auto simp: cmp_def Let_def split: if_splits\<close>)

lemma cmp_total: "cmp g a b \<le> 0 \<or> cmp g b a \<le> 0"
  using cmp_swap [of g b a] by linarith

lemma set_insort_cmp: "set (insort_cmp c x xs) = insert x (set xs)"
  by (induction xs) auto

lemma mset_insort_cmp: "mset (insort_cmp c x xs) = add_mset x (mset xs)"
  by (induction xs) auto

lemma mset_qsort: "mset (qsort c xs) = mset xs"
  by (induction xs) (simp_all add: qsort_def mset_insort_cmp)

lemma set_qsort: "set (qsort c xs) = set xs"
  using mset_qsort [of c xs] by (metis set_mset_mset)

lemma length_qsort: "length (qsort c xs) = length xs"
  using mset_qsort [of c xs] by (metis size_mset)

lemma sorted_insort_cmp:
  assumes tr: "\<And>a b d. c a b \<le> 0 \<Longrightarrow> c b d \<le> 0 \<Longrightarrow> c a d \<le> 0"
    and tot: "\<And>a b. c a b \<le> 0 \<or> c b a \<le> 0"
  shows "sorted_wrt (\<lambda>a b. c a b \<le> 0) xs \<Longrightarrow> sorted_wrt (\<lambda>a b. c a b \<le> 0) (insort_cmp c x xs)"
proof (induction xs)
  case Nil
  then show ?case by simp
next
  case (Cons y ys)
  show ?case
  proof (cases "c x y \<le> 0")
    case True
    with Cons.prems tr show ?thesis by auto
  next
    case False
    with tot [of x y] have "c y x \<le> 0" by simp
    with False Cons show ?thesis by (auto simp: set_insort_cmp)
  qed
qed

lemma sorted_qsort:
  assumes tr: "\<And>a b d. c a b \<le> 0 \<Longrightarrow> c b d \<le> 0 \<Longrightarrow> c a d \<le> 0"
    and tot: "\<And>a b. c a b \<le> 0 \<or> c b a \<le> 0"
  shows "sorted_wrt (\<lambda>a b. c a b \<le> 0) (qsort c xs)"
proof (induction xs)
  case Nil
  then show ?case by (simp add: qsort_def)
next
  case (Cons x xs)
  have "qsort c (x # xs) = insort_cmp c x (qsort c xs)" by (simp add: qsort_def)
  with Cons sorted_insort_cmp [of c, OF tr tot] show ?case by simp
qed

lemma sorted_qsort_cmp: "sorted_wrt (\<lambda>a b. cmp g a b \<le> 0) (qsort (cmp g) xs)"
proof (rule sorted_qsort)
  show "cmp g a d \<le> 0" if "cmp g a b \<le> 0" "cmp g b d \<le> 0" for a b d
    using cmp_trans_le_aux [OF that] by simp
  show "cmp g a b \<le> 0 \<or> cmp g b a \<le> 0" for a b by (rule cmp_total)
qed

lemma stat_loop_partition:
  assumes "length es = pathc" and "i + length paths = pathc" and "non_dirc \<le> i"
    and "\<forall>p\<in>set paths. lstat p \<noteq> None \<and> strlen p \<le> NAME_MAX"
    and "\<forall>k<non_dirc. \<not> S_ISDIR (st_mode (sb (es ! k)))"
    and "\<forall>k. pathc - (i - non_dirc) \<le> k \<and> k < pathc \<longrightarrow> S_ISDIR (st_mode (sb (es ! k)))"
  shows "\<exists>n es'. stat_loop lstat pathc paths i non_dirc es = Inr (n, es') \<and>
           length es' = pathc \<and> n \<le> pathc \<and>
           (\<forall>k<n. \<not> S_ISDIR (st_mode (sb (es' ! k)))) \<and>
           (\<forall>k. n \<le> k \<and> k < pathc \<longrightarrow> S_ISDIR (st_mode (sb (es' ! k))))"
  using assms
proof (induction paths arbitrary: i non_dirc es)
  case Nil
  then show ?case by auto
next
  case (Cons path paths)
  from Cons.prems obtain st where st: "lstat path = Some st" by auto
  from Cons.prems have len: "\<not> strlen path \<ge> NAME_MAX + 1" by auto
  from Cons.prems have i: "i < pathc" by auto
  show ?case
  proof (cases "S_ISDIR (st_mode st)")
    case True
    let ?p = "pathc - 1 - i + non_dirc"
    let ?es = "es[?p := \<lparr>name = c_string path, sb = st\<rparr>]"
    from i Cons.prems have p: "?p < length es" "non_dirc \<le> ?p" "?p = pathc - (Suc i - non_dirc)" by auto
    have "\<exists>n es'. stat_loop lstat pathc paths (i + 1) non_dirc ?es = Inr (n, es') \<and>
           length es' = pathc \<and> n \<le> pathc \<and>
           (\<forall>k<n. \<not> S_ISDIR (st_mode (sb (es' ! k)))) \<and>
           (\<forall>k. n \<le> k \<and> k < pathc \<longrightarrow> S_ISDIR (st_mode (sb (es' ! k))))"
    proof (rule Cons.IH)
      show "\<forall>k<non_dirc. \<not> S_ISDIR (st_mode (sb (?es ! k)))"
        using Cons.prems p by (auto simp: nth_list_update)
      show "\<forall>k. pathc - (i + 1 - non_dirc) \<le> k \<and> k < pathc \<longrightarrow> S_ISDIR (st_mode (sb (?es ! k)))"
        using Cons.prems p True i by (auto simp: nth_list_update)
    qed (use Cons.prems in auto)
    with st len True p show ?thesis by (simp add: Let_def)
  next
    case False
    let ?es = "es[non_dirc := \<lparr>name = c_string path, sb = st\<rparr>]"
    from i Cons.prems have p: "non_dirc < length es" "non_dirc < pathc - (i - non_dirc)" by auto
    have "\<exists>n es'. stat_loop lstat pathc paths (i + 1) (non_dirc + 1) ?es = Inr (n, es') \<and>
           length es' = pathc \<and> n \<le> pathc \<and>
           (\<forall>k<n. \<not> S_ISDIR (st_mode (sb (es' ! k)))) \<and>
           (\<forall>k. n \<le> k \<and> k < pathc \<longrightarrow> S_ISDIR (st_mode (sb (es' ! k))))"
    proof (rule Cons.IH)
      show "\<forall>k<non_dirc + 1. \<not> S_ISDIR (st_mode (sb (?es ! k)))"
        using Cons.prems p False by (auto simp: nth_list_update)
      show "\<forall>k. pathc - (i + 1 - (non_dirc + 1)) \<le> k \<and> k < pathc \<longrightarrow> S_ISDIR (st_mode (sb (?es ! k)))"
        using Cons.prems p by (auto simp: nth_list_update)
    qed (use Cons.prems in auto)
    with st len False p show ?thesis by (simp add: Let_def)
  qed
qed

text \<open>
  Claim C6. For a fixed sort key and reverse flag, \<open>cmp\<close> is a strict weak ordering:
  no entry compares less than itself, ``less'' in one direction is ``greater'' in the other,
  ``less'' is transitive and so is ``equal''; and the result with the reverse flag set is
  the negation of the result with the flag unset, for every key, the lexicographic one
  included.
\<close>

theorem cmp_strict_weak_order:
  "\<not> cmp g a a < 0
   \<and> (cmp g a b < 0 \<longleftrightarrow> cmp g b a > 0)
   \<and> (cmp g a b < 0 \<and> cmp g b c < 0 \<longrightarrow> cmp g a c < 0)
   \<and> (cmp g a b = 0 \<and> cmp g b c = 0 \<longrightarrow> cmp g a c = 0)
   \<and> cmp (g\<lparr>reverse := True\<rparr>) a b = - cmp (g\<lparr>reverse := False\<rparr>) a b"
proof -
  have "cmp g a c < 0" if "cmp g a b < 0" "cmp g b c < 0"
    using cmp_trans_le_aux [of g a b c] that by force
  moreover have "cmp g a c = 0" if "cmp g a b = 0" "cmp g b c = 0"
  proof -
    have "cmp g a c \<le> 0" using cmp_trans_le_aux [of g a b c] that by simp
    moreover have "cmp g c b \<le> 0" "cmp g b a \<le> 0"
      using that cmp_swap [of g c b] cmp_swap [of g b a] by simp_all
    then have "cmp g c a \<le> 0" using cmp_trans_le_aux [of g c b a] by simp
    ultimately show ?thesis using cmp_swap [of g c a] by simp
  qed
  moreover have "cmp g a b < 0 \<longleftrightarrow> cmp g b a > 0"
    using cmp_swap [of g b a] by linarith
  ultimately show ?thesis
    by (simp add: cmp_refl cmp_reverse)
qed

theorem cmp_strict_weak_order_witness:
  "cmp \<lparr>sort_key = SORT_LEXICO, reverse = False\<rparr> (entry_named ''A'') (entry_named ''b'') < 0
   \<and> cmp \<lparr>sort_key = SORT_LEXICO, reverse = False\<rparr> (entry_named ''b'') (entry_named ''c'') < 0
   \<and> cmp \<lparr>sort_key = SORT_LEXICO, reverse = False\<rparr> (entry_named ''A'') (entry_named ''c'') < 0
   \<and> cmp \<lparr>sort_key = SORT_LEXICO, reverse = False\<rparr> (entry_named ''A'') (entry_named ''a'') = 0
   \<and> cmp \<lparr>sort_key = SORT_LEXICO, reverse = True\<rparr> (entry_named ''A'') (entry_named ''b'') > 0"
proof -
  have ab: "cmp \<lparr>sort_key = SORT_LEXICO, reverse = False\<rparr> (entry_named ''A'') (entry_named ''b'') < 0"
    by (simp add: cmp_def entry_named_def tolower_def)
  have bc: "cmp \<lparr>sort_key = SORT_LEXICO, reverse = False\<rparr> (entry_named ''b'') (entry_named ''c'') < 0"
    by (simp add: cmp_def entry_named_def tolower_def)
  have aa: "cmp \<lparr>sort_key = SORT_LEXICO, reverse = False\<rparr> (entry_named ''A'') (entry_named ''a'') = 0"
    by (simp add: cmp_def entry_named_def tolower_def NUL_def)
  from cmp_strict_weak_order [of "\<lparr>sort_key = SORT_LEXICO, reverse = False\<rparr>"
      "entry_named ''A''" "entry_named ''b''" "entry_named ''c''"] ab bc aa
  show ?thesis by simp
qed

lemma stat_loop_mset:
  assumes "length es = pathc" and "i + length paths = pathc" and "non_dirc \<le> i"
    and "stat_loop lstat pathc paths i non_dirc es = Inr (n, es')"
  shows "mset (take n es') + mset (drop n es')
           = mset (take non_dirc es) + mset (drop (pathc - (i - non_dirc)) es)
             + mset (map (\<lambda>p. \<lparr>name = c_string p, sb = the (lstat p)\<rparr>) paths)"
  using assms
proof (induction paths arbitrary: i non_dirc es)
  case Nil
  then have "n = non_dirc" "es' = es" "i = pathc" by simp_all
  moreover from Nil.prems(3) \<open>i = pathc\<close> have "pathc - (i - non_dirc) = non_dirc" by simp
  ultimately show ?case by simp
next
  case (Cons path paths)
  from Cons.prems(4) obtain st where st: "lstat path = Some st"
    by (cases "lstat path") simp_all
  let ?ent = "\<lparr>name = c_string path, sb = st\<rparr>"
  let ?p = "if S_ISDIR (st_mode st) then pathc - 1 - i + non_dirc else non_dirc"
  from Cons.prems(2) have i: "i < pathc" by simp
  with Cons.prems(3) have p: "?p < length es" using Cons.prems(1) by auto
  from Cons.prems(4) st p
  have loop: "stat_loop lstat pathc paths (i + 1)
                (if \<not> S_ISDIR (st_mode st) then non_dirc + 1 else non_dirc)
                (es[?p := ?ent]) = Inr (n, es')"
    by (simp add: Let_def split: if_splits)
  have l: "length (es[?p := ?ent]) = pathc" using Cons.prems(1) by simp
  have i': "i + 1 + length paths = pathc" using Cons.prems(2) by simp
  show ?case
  proof (cases "S_ISDIR (st_mode st)")
    case True
    define q where "q = pathc - 1 - i + non_dirc"
    from True loop have loop': "stat_loop lstat pathc paths (i + 1) non_dirc (es[q := ?ent])
        = Inr (n, es')" by (simp add: q_def)
    have nd: "non_dirc \<le> i + 1" using Cons.prems(3) by simp
    have l': "length (es[q := ?ent]) = pathc" using Cons.prems(1) by simp
    have q1: "pathc - (i + 1 - non_dirc) = q" using i Cons.prems(3) by (simp add: q_def)
    have q2: "pathc - (i - non_dirc) = Suc q" using i Cons.prems(3) by (simp add: q_def)
    have ql: "q < length es" using p True by (simp add: q_def)
    have qn: "non_dirc \<le> q" by (simp add: q_def)
    from Cons.IH [OF l' i' nd loop']
    have "mset (take n es') + mset (drop n es')
        = mset (take non_dirc (es[q := ?ent])) + mset (drop q (es[q := ?ent]))
          + mset (map (\<lambda>p. \<lparr>name = c_string p, sb = the (lstat p)\<rparr>) paths)"
      unfolding q1 .
    moreover have "take non_dirc (es[q := ?ent]) = take non_dirc es"
      using qn by simp
    moreover have "drop q (es[q := ?ent]) = ?ent # drop (Suc q) es"
      using ql by (simp add: Cons_nth_drop_Suc [symmetric])
    ultimately show ?thesis unfolding q2 using st by simp
  next
    case False
    from False loop have loop': "stat_loop lstat pathc paths (i + 1) (non_dirc + 1)
        (es[non_dirc := ?ent]) = Inr (n, es')" by simp
    have nd: "non_dirc + 1 \<le> i + 1" using Cons.prems(3) by simp
    from False l have l': "length (es[non_dirc := ?ent]) = pathc" by simp
    from Cons.IH [OF l' i' nd loop']
    have "mset (take n es') + mset (drop n es')
        = mset (take (non_dirc + 1) (es[non_dirc := ?ent]))
          + mset (drop (pathc - (i + 1 - (non_dirc + 1))) (es[non_dirc := ?ent]))
          + mset (map (\<lambda>p. \<lparr>name = c_string p, sb = the (lstat p)\<rparr>) paths)" .
    moreover have ndl: "non_dirc < length es" using p False by simp
    have "take (non_dirc + 1) (es[non_dirc := ?ent]) = take non_dirc es @ [?ent]"
      using ndl by (simp add: take_Suc_conv_app_nth)
    moreover have "drop (pathc - (i + 1 - (non_dirc + 1))) (es[non_dirc := ?ent])
        = drop (pathc - (i - non_dirc)) es"
      using i Cons.prems(3) by simp
    ultimately show ?thesis using st by simp
  qed
qed

lemma partition_count:
  assumes "\<forall>e\<in>set (take n es). \<not> P e" and "\<forall>e\<in>set (drop n es). P e" and "n \<le> length es"
    and "mset es = mset (map f path)"
  shows "n = length (filter (\<lambda>p. \<not> P (f p)) path)"
proof -
  have "filter (\<lambda>e. \<not> P e) es = filter (\<lambda>e. \<not> P e) (take n es) @ filter (\<lambda>e. \<not> P e) (drop n es)"
    by (metis append_take_drop_id filter_append)
  also have "filter (\<lambda>e. \<not> P e) (take n es) = take n es"
    using assms(1) by (simp add: filter_id_conv)
  also have "filter (\<lambda>e. \<not> P e) (drop n es) = []"
    using assms(2) by (simp add: filter_empty_conv)
  finally have "length (filter (\<lambda>e. \<not> P e) es) = n" using assms(3) by simp
  moreover have "mset (filter (\<lambda>e. \<not> P e) es) = mset (filter (\<lambda>e. \<not> P e) (map f path))"
    using assms(4) by (simp only: mset_filter)
  then have "length (filter (\<lambda>e. \<not> P e) es) = length (filter (\<lambda>e. \<not> P e) (map f path))"
    by (metis size_mset)
  moreover have "length (filter (\<lambda>e. \<not> P e) (map f path)) = length (filter (\<lambda>p. \<not> P (f p)) path)"
    by (simp add: filter_map comp_def)
  ultimately show ?thesis by simp
qed

text \<open>
  Claim C9. Whatever sort key and reverse flag are in force at the call, \<open>stat_and_sort\<close>
  (when every \<open>lstat\<close> succeeds and every path fits a name) sets the key to
  lexicographic and the reverse flag to 0 and returns the same array for every
  configuration. The array holds the entries of the given paths, each path once with its
  name and its metadata; \<open>non_dirc\<close> is the number of paths that are not directories;
  the non-directories are in the indices below \<open>non_dirc\<close> and the directories after
  them, each part in ascending case-insensitive order.
\<close>

theorem stat_and_sort_lexico:
  assumes "length entries = length path"
    and "\<forall>p\<in>set path. lstat p \<noteq> None \<and> strlen p \<le> NAME_MAX"
  shows "\<exists>non_dirc es.
     stat_and_sort g lstat path entries
       = Inr (\<lparr>sort_key = SORT_LEXICO, reverse = False\<rparr>, non_dirc, es)
     \<and> stat_and_sort g0 lstat path entries = stat_and_sort g lstat path entries
     \<and> non_dirc \<le> length path \<and> length es = length path
     \<and> mset es = mset (map (\<lambda>p. \<lparr>name = c_string p, sb = the (lstat p)\<rparr>) path)
     \<and> non_dirc = length (filter (\<lambda>p. \<not> S_ISDIR (st_mode (the (lstat p)))) path)
     \<and> sorted_wrt (\<lambda>a b. strcasecmp (name a) (name b) \<le> 0) (take non_dirc es)
     \<and> sorted_wrt (\<lambda>a b. strcasecmp (name a) (name b) \<le> 0) (drop non_dirc es)
     \<and> (\<forall>e\<in>set (take non_dirc es). \<not> S_ISDIR (st_mode (sb e)))
     \<and> (\<forall>e\<in>set (drop non_dirc es). S_ISDIR (st_mode (sb e)))"
proof -
  let ?lex = "\<lparr>sort_key = SORT_LEXICO, reverse = False\<rparr>"
  let ?ent = "\<lambda>p. \<lparr>name = c_string p, sb = the (lstat p)\<rparr>"
  have "\<exists>n es'. stat_loop lstat (length path) path 0 0 entries = Inr (n, es') \<and>
           length es' = length path \<and> n \<le> length path \<and>
           (\<forall>k<n. \<not> S_ISDIR (st_mode (sb (es' ! k)))) \<and>
           (\<forall>k. n \<le> k \<and> k < length path \<longrightarrow> S_ISDIR (st_mode (sb (es' ! k))))"
    by (rule stat_loop_partition) (use assms in auto)
  then obtain n es' where loop: "stat_loop lstat (length path) path 0 0 entries = Inr (n, es')"
    and len: "length es' = length path" and n: "n \<le> length path"
    and nd: "\<forall>k<n. \<not> S_ISDIR (st_mode (sb (es' ! k)))"
    and d: "\<forall>k. n \<le> k \<and> k < length path \<longrightarrow> S_ISDIR (st_mode (sb (es' ! k)))"
    by blast
  have cfg: "h\<lparr>reverse := False, sort_key := SORT_LEXICO\<rparr> = ?lex" for h :: sort_config
    by (cases h) simp
  let ?es = "qsort (cmp ?lex) (take n es') @ qsort (cmp ?lex) (drop n es')"
  have res: "stat_and_sort h lstat path entries = Inr (?lex, n, ?es)" for h
    using loop len n by (simp add: stat_and_sort_def Let_def cfg length_qsort)
  have lex: "cmp ?lex a b = strcasecmp (name a) (name b)" for a b
    by (simp add: cmp_def)
  have tk: "take n ?es = qsort (cmp ?lex) (take n es')" and dr: "drop n ?es = qsort (cmp ?lex) (drop n es')"
    using len n by (simp_all add: length_qsort)
  have s1: "sorted_wrt (\<lambda>a b. strcasecmp (name a) (name b) \<le> 0) (take n ?es)"
    using sorted_qsort_cmp [of ?lex "take n es'"] unfolding tk lex .
  have s2: "sorted_wrt (\<lambda>a b. strcasecmp (name a) (name b) \<le> 0) (drop n ?es)"
    using sorted_qsort_cmp [of ?lex "drop n es'"] unfolding dr lex .
  have p1: "\<forall>e\<in>set (take n ?es). \<not> S_ISDIR (st_mode (sb e))"
    unfolding tk set_qsort using nd len n by (auto simp: in_set_conv_nth)
  have p2: "\<forall>e\<in>set (drop n ?es). S_ISDIR (st_mode (sb e))"
    unfolding dr set_qsort using d len n by (auto simp: in_set_conv_nth)
  have l: "length ?es = length path" using len n by (simp add: length_qsort)
  have "mset (take n es') + mset (drop n es')
      = mset (take 0 entries) + mset (drop (length path - (0 - 0)) entries) + mset (map ?ent path)"
    by (rule stat_loop_mset [OF assms(1) _ _ loop]) simp_all
  then have m: "mset ?es = mset (map ?ent path)"
    using assms(1) by (simp add: mset_qsort)
  have c: "n = length (filter (\<lambda>p. \<not> S_ISDIR (st_mode (the (lstat p)))) path)"
    using partition_count [where P = "\<lambda>e. S_ISDIR (st_mode (sb e))" and f = ?ent, OF p1 p2 _ m] l n
    by simp
  have r1: "stat_and_sort g lstat path entries = Inr (?lex, n, ?es)" by (rule res)
  have r2: "stat_and_sort g0 lstat path entries = stat_and_sort g lstat path entries"
    by (simp only: res)
  show ?thesis
    by (rule exI [of _ n], rule exI [of _ ?es]) (intro conjI r1 r2 n l m c s1 s2 p1 p2)
qed

theorem stat_and_sort_lexico_witness:
  "length (replicate 4 (entry_named '''')) = length [''b'', ''dir'', ''A'', ''c'']
   \<and> list_all (\<lambda>p. sample_lstat p \<noteq> None \<and> strlen p \<le> NAME_MAX) [''b'', ''dir'', ''A'', ''c'']
   \<and> stat_and_sort \<lparr>sort_key = SORT_SIZE, reverse = True\<rparr> sample_lstat
         [''b'', ''dir'', ''A'', ''c''] (replicate 4 (entry_named ''''))
       = Inr (\<lparr>sort_key = SORT_LEXICO, reverse = False\<rparr>, 3,
              [\<lparr>name = ''A'', sb = regular_stat\<rparr>, \<lparr>name = ''b'', sb = regular_stat\<rparr>,
               \<lparr>name = ''c'', sb = regular_stat\<rparr>, \<lparr>name = ''dir'', sb = directory_stat\<rparr>])
   \<and> stat_and_sort \<lparr>sort_key = SORT_LEXICO, reverse = False\<rparr> sample_lstat
         [''b'', ''dir'', ''A'', ''c''] (replicate 4 (entry_named ''''))
       = stat_and_sort \<lparr>sort_key = SORT_SIZE, reverse = True\<rparr> sample_lstat
           [''b'', ''dir'', ''A'', ''c''] (replicate 4 (entry_named ''''))
   \<and> sorted_wrt (\<lambda>a b. strcasecmp (name a) (name b) \<le> 0)
        [\<lparr>name = ''A'', sb = regular_stat\<rparr>, \<lparr>name = ''b'', sb = regular_stat\<rparr>,
         \<lparr>name = ''c'', sb = regular_stat\<rparr>]
   \<and> mset [\<lparr>name = ''A'', sb = regular_stat\<rparr>, \<lparr>name = ''b'', sb = regular_stat\<rparr>,
            \<lparr>name = ''c'', sb = regular_stat\<rparr>, \<lparr>name = ''dir'', sb = directory_stat\<rparr>]
       = mset (map (\<lambda>p. \<lparr>name = c_string p, sb = the (sample_lstat p)\<rparr>)
                 [''b'', ''dir'', ''A'', ''c''])"
proof -
  let ?g = "\<lparr>sort_key = SORT_SIZE, reverse = True\<rparr>"
  let ?P = "[''b'', ''dir'', ''A'', ''c'']"
  let ?R = "[\<lparr>name = ''A'', sb = regular_stat\<rparr>, \<lparr>name = ''b'', sb = regular_stat\<rparr>,
             \<lparr>name = ''c'', sb = regular_stat\<rparr>, \<lparr>name = ''dir'', sb = directory_stat\<rparr>]"
  have h1: "length (replicate 4 (entry_named '''')) = length ?P"
    by simp
  have h2: "\<forall>p\<in>set ?P. sample_lstat p \<noteq> None \<and> strlen p \<le> NAME_MAX"
    by (simp add: sample_lstat_def strlen_def c_string_def NUL_def NAME_MAX_def)
  have h3: "list_all (\<lambda>p. sample_lstat p \<noteq> None \<and> strlen p \<le> NAME_MAX) ?P"
    using h2 by (simp only: list_all_iff)
  have run: "stat_and_sort ?g sample_lstat ?P (replicate 4 (entry_named ''''))
       = Inr (\<lparr>sort_key = SORT_LEXICO, reverse = False\<rparr>, 3, ?R)"
    by code_simp
  from stat_and_sort_lexico [OF h1 h2, of ?g "\<lparr>sort_key = SORT_LEXICO, reverse = False\<rparr>"]
  obtain non_dirc es where
    r: "stat_and_sort ?g sample_lstat ?P (replicate 4 (entry_named ''''))
          = Inr (\<lparr>sort_key = SORT_LEXICO, reverse = False\<rparr>, non_dirc, es)"
    and same: "stat_and_sort \<lparr>sort_key = SORT_LEXICO, reverse = False\<rparr> sample_lstat ?P
          (replicate 4 (entry_named ''''))
        = stat_and_sort ?g sample_lstat ?P (replicate 4 (entry_named ''''))"
    and m: "mset es = mset (map (\<lambda>p. \<lparr>name = c_string p, sb = the (sample_lstat p)\<rparr>) ?P)"
    and s: "sorted_wrt (\<lambda>a b. strcasecmp (name a) (name b) \<le> 0) (take non_dirc es)"
    by blast
  from r run have e: "non_dirc = 3" "es = ?R" by simp_all
  have t: "take 3 ?R = [\<lparr>name = ''A'', sb = regular_stat\<rparr>, \<lparr>name = ''b'', sb = regular_stat\<rparr>,
         \<lparr>name = ''c'', sb = regular_stat\<rparr>]" by simp
  from s have s': "sorted_wrt (\<lambda>a b. strcasecmp (name a) (name b) \<le> 0)
        [\<lparr>name = ''A'', sb = regular_stat\<rparr>, \<lparr>name = ''b'', sb = regular_stat\<rparr>,
         \<lparr>name = ''c'', sb = regular_stat\<rparr>]"
    unfolding e t .
  from m have m': "mset ?R = mset (map (\<lambda>p. \<lparr>name = c_string p, sb = the (sample_lstat p)\<rparr>) ?P)"
    unfolding e .
  from h1 h3 run same s' m' show ?thesis by (intro conjI)
qed

lemma digit_char_digit: "d < 10 \<Longrightarrow> digit_char d \<in> set ''0123456789''"
  unfolding digit_char_def by (rule nth_mem) simp

lemma dec_digits: "set (dec n) \<subseteq> set ''0123456789''"
proof (induction n rule: dec.induct)
  case (1 n)
  show ?case
  proof (cases "n < 10")
    case True
    then show ?thesis using digit_char_digit [of n] by (subst dec.simps) simp
  next
    case False
    then show ?thesis
      using 1 digit_char_digit [of "n mod 10"] by (subst dec.simps) simp
  qed
qed

lemma dec_2: "dec 2 = ''2''"
  by (simp add: dec.simps digit_char_def)

lemma ceiling_div_1024:
  "nat \<lceil>(of_nat sz :: rat) / 1024\<rceil> = sz div 1024 + (if sz mod 1024 > 0 then 1 else 0)"
proof -
  have "\<lceil>(of_int (int sz) :: rat) / of_int 1024\<rceil> = - (- int sz div 1024)"
    by (rule ceiling_divide_eq_div)
  moreover have "- int sz div 1024
      = (if int sz mod 1024 = 0 then - (int sz div 1024) else - (int sz div 1024) - 1)"
    by (rule zdiv_zminus1_eq_if) simp
  moreover have "int sz div 1024 = int (sz div 1024)" "int sz mod 1024 = int (sz mod 1024)"
    by (simp_all add: zdiv_int zmod_int)
  ultimately have "\<lceil>(of_nat sz :: rat) / 1024\<rceil>
      = int (sz div 1024 + (if sz mod 1024 > 0 then 1 else 0))"
    by (simp del: of_nat_add)
  then show ?thesis by (simp only: nat_int)
qed

lemma snprintf_advance_fits:
  "length txt < remain s \<Longrightarrow>
   snprintf_advance s txt = Inr (s\<lparr>out := out s @ txt, remain := remain s - length txt\<rparr>)"
  by (simp add: snprintf_advance_def Let_def)

lemma dec_small: "n < 10 \<Longrightarrow> dec n = [digit_char n]"
  by (subst dec.simps) simp

text \<open>
  Claim C8. In kilobyte mode a size is printed as the decimal digits of
  \<open>\<lceil>size / 1024\<rceil>\<close> and nothing else: the quotient \<open>size div 1024\<close> is incremented exactly
  when \<open>size mod 1024\<close> is not zero. 1536 bytes, and three blocks of the default 512 bytes,
  are printed as \<open>2\<close>.
\<close>

theorem print_size_kilo_rounds_up:
  "print_size_kilo s sz = print_size_dec s (nat \<lceil>(of_nat sz :: rat) / 1024\<rceil>)
   \<and> nat \<lceil>(of_nat sz :: rat) / 1024\<rceil> = sz div 1024 + (if sz mod 1024 \<noteq> 0 then 1 else 0)
   \<and> (length (dec (nat \<lceil>(of_nat sz :: rat) / 1024\<rceil>)) < remain s \<longrightarrow>
        print_size_kilo s sz
          = Inr (s\<lparr>out := out s @ dec (nat \<lceil>(of_nat sz :: rat) / 1024\<rceil>),
                  remain := remain s - length (dec (nat \<lceil>(of_nat sz :: rat) / 1024\<rceil>))\<rparr>))
   \<and> set (dec (nat \<lceil>(of_nat sz :: rat) / 1024\<rceil>)) \<subseteq> set ''0123456789''
   \<and> print_size_kilo \<lparr>out = [], remain = LINE_SIZE\<rparr> 1536
        = Inr \<lparr>out = ''2'', remain = LINE_SIZE - 1\<rparr>
   \<and> print_blks \<lparr>out = [], remain = LINE_SIZE\<rparr> 3 (flags_init\<lparr>kflag := True\<rparr>) sample_env
        = Inr \<lparr>out = ''2'', remain = LINE_SIZE - 1\<rparr>"
proof -
  have k: "print_size_kilo t n = print_size_dec t (nat \<lceil>(of_nat n :: rat) / 1024\<rceil>)" for t n
    by (simp add: print_size_kilo_def Let_def ceiling_div_1024)
  have c: "nat \<lceil>(of_nat sz :: rat) / 1024\<rceil> = sz div 1024 + (if sz mod 1024 \<noteq> 0 then 1 else 0)"
    by (simp add: ceiling_div_1024)
  have two: "nat \<lceil>(of_nat 1536 :: rat) / 1024\<rceil> = 2"
    by (simp only: ceiling_div_1024) simp
  have d2: "dec 2 = ''2''"
    by (simp add: dec_small digit_char_def)
  have ex: "print_size_kilo \<lparr>out = [], remain = LINE_SIZE\<rparr> 1536
        = Inr \<lparr>out = ''2'', remain = LINE_SIZE - 1\<rparr>"
    unfolding k two by (simp add: print_size_dec_def d2 snprintf_advance_fits LINE_SIZE_def)
  have bytes: "blkcnt_t_to_bytes sample_env 3 = 1536"
    by (simp add: blkcnt_t_to_bytes_def get_block_size_def sample_env_def DEFAULT_BLOCK_SIZE_def)
  have blks: "print_blks \<lparr>out = [], remain = LINE_SIZE\<rparr> 3 (flags_init\<lparr>kflag := True\<rparr>) sample_env
        = Inr \<lparr>out = ''2'', remain = LINE_SIZE - 1\<rparr>"
    by (simp add: print_blks_def flags_init_def bytes ex)
  show ?thesis
    using k [of s sz] c dec_digits ex blks
    by (simp add: print_size_dec_def snprintf_advance_fits)
qed

theorem print_size_kilo_rounds_up_witness:
  "length (dec (nat \<lceil>(of_nat 1025 :: rat) / 1024\<rceil>)) < remain \<lparr>out = ''total '', remain = 58\<rparr>
   \<and> print_size_kilo \<lparr>out = ''total '', remain = 58\<rparr> 1025
        = Inr \<lparr>out = ''total 2'', remain = 57\<rparr>"
proof -
  have two: "nat \<lceil>(of_nat 1025 :: rat) / 1024\<rceil> = 2"
    by (simp only: ceiling_div_1024) simp
  have d2: "dec 2 = ''2''"
    by (simp add: dec_small digit_char_def)
  have h: "length (dec (nat \<lceil>(of_nat 1025 :: rat) / 1024\<rceil>)) < remain \<lparr>out = ''total '', remain = 58\<rparr>"
    unfolding two d2 by simp
  from print_size_kilo_rounds_up [of "\<lparr>out = ''total '', remain = 58\<rparr>" 1025] h
  have "print_size_kilo \<lparr>out = ''total '', remain = 58\<rparr> 1025
          = Inr (\<lparr>out = ''total '', remain = 58\<rparr>
                  \<lparr>out := out \<lparr>out = ''total '', remain = 58\<rparr> @ dec (nat \<lceil>(of_nat 1025 :: rat) / 1024\<rceil>),
                  remain := remain \<lparr>out = ''total '', remain = 58\<rparr> - length (dec (nat \<lceil>(of_nat 1025 :: rat) / 1024\<rceil>))\<rparr>)"
    by blast
  then show ?thesis using h unfolding two d2 by simp
qed

lemma split_fields_nonempty: "split_fields s \<noteq> []"
  by (induction s) (auto split: list.splits)

lemma length_split_fields_pos: "0 < length (split_fields s)"
  using split_fields_nonempty [of s] by simp

lemma c_string_Nil: "c_string [] = []"
  by (simp add: c_string_def)

lemma c_string_NUL: "c_string (NUL # buf) = []"
  by (simp add: c_string_def)

lemma c_string_Cons: "c \<noteq> NUL \<Longrightarrow> c_string (c # buf) = c # c_string buf"
  by (simp add: c_string_def)

lemma DELIMITER_not_NUL: "DELIMITER \<noteq> NUL"
  by (simp add: DELIMITER_def NUL_def)

lemma count_cols_fields: "count_cols buf n + 1 = n + length (split_fields (c_string buf))"
proof (induction buf arbitrary: n)
  case Nil
  then show ?case by (simp add: c_string_Nil)
next
  case (Cons c buf)
  show ?case
  proof (cases "c = NUL")
    case True
    then show ?thesis by (simp add: c_string_NUL)
  next
    case False
    then show ?thesis
      using Cons [of "n + 1"] Cons [of n] split_fields_nonempty [of "c_string buf"]
      by (auto simp: c_string_Cons split: list.splits)
  qed
qed

lemma set_max_loop_col:
  assumes "length mw = cs" and "col \<le> cs"
  shows "\<exists>w mw'. set_max_loop buf mx cs col width mw
           = Inr (min cs (col + length (split_fields (c_string buf)) - 1), w, mw')
         \<and> length mw' = cs"
  using assms
proof (induction buf arbitrary: col width mw)
  case Nil
  then show ?case by (simp add: c_string_Nil)
next
  case (Cons c buf)
  let ?fs = "split_fields (c_string buf)"
  have pos: "0 < length ?fs" by (rule length_split_fields_pos)
  show ?case
  proof (cases "c = NUL \<or> \<not> col < cs")
    case True
    with Cons.prems pos show ?thesis
      by (cases "c = NUL") (auto simp: c_string_NUL c_string_Cons split: list.splits)
  next
    case False
    then have c: "c \<noteq> NUL" and col: "col < cs" by auto
    show ?thesis
    proof (cases "c = DELIMITER")
      case True
      let ?mw = "if \<not> mx \<or> width > mw ! col then mw[col := width] else mw"
      have "\<exists>w mw'. set_max_loop buf mx cs (col + 1) 0 ?mw
               = Inr (min cs (col + 1 + length ?fs - 1), w, mw') \<and> length mw' = cs"
        by (rule Cons.IH) (use Cons.prems col in auto)
      with True c col Cons.prems show ?thesis
        by (auto simp: c_string_Cons)
    next
      case False
      have "\<exists>w mw'. set_max_loop buf mx cs col (width + 1) mw
               = Inr (min cs (col + length ?fs - 1), w, mw') \<and> length mw' = cs"
        by (rule Cons.IH) (use Cons.prems in auto)
      with False c col split_fields_nonempty [of "c_string buf"] show ?thesis
        by (auto simp: c_string_Cons split: list.splits)
    qed
  qed
qed

lemma set_max_per_col_mismatch:
  assumes "cols t = length (max_width t)"
    and "length (split_fields (c_string buf)) \<noteq> cols t"
  shows "set_max_per_col buf t mx = Inl EntryColumnsMismatch"
proof -
  from set_max_loop_col [of "max_width t" "cols t" 0 buf mx 0] assms
  obtain w mw' where "set_max_loop buf mx (cols t) 0 0 (max_width t)
      = Inr (min (cols t) (length (split_fields (c_string buf)) - 1), w, mw')"
    by auto
  moreover have "min (cols t) (length (split_fields (c_string buf)) - 1) + 1 \<noteq> cols t"
    using assms(2) length_split_fields_pos [of "c_string buf"] by (auto simp: min_def)
  ultimately show ?thesis
    by (simp add: set_max_per_col_def)
qed

lemma set_max_loop_widths:
  assumes "length mw = cs" and "col + length (split_fields (c_string buf)) = cs"
  shows "\<exists>mw'. set_max_loop buf mx cs col width mw
           = Inr (cs - 1,
                  length (last (split_fields (c_string buf)))
                    + (if length (split_fields (c_string buf)) = 1 then width else 0),
                  mw')
         \<and> length mw' = cs
         \<and> (\<forall>j<cs. mw' ! j =
               (if col \<le> j \<and> j < cs - 1
                then (let new = length (split_fields (c_string buf) ! (j - col))
                                  + (if j = col then width else 0)
                      in if \<not> mx \<or> new > mw ! j then new else mw ! j)
                else mw ! j))"
  using assms
proof (induction buf arbitrary: col width mw)
  case Nil
  then show ?case by (auto simp: c_string_Nil)
next
  case (Cons c buf)
  let ?fs = "split_fields (c_string buf)"
  have pos: "0 < length ?fs" by (rule length_split_fields_pos)
  show ?case
  proof (cases "c = NUL")
    case True
    with Cons.prems show ?thesis by (auto simp: c_string_NUL)
  next
    case c: False
    then have cstr: "c_string (c # buf) = c # c_string buf" by (rule c_string_Cons)
    show ?thesis
    proof (cases "c = DELIMITER")
      case True
      have fs: "split_fields (c_string (DELIMITER # buf)) = [] # ?fs"
        by (simp add: c_string_Cons DELIMITER_not_NUL)
      note delim = True
      from Cons.prems pos delim have col: "col < cs" "col + 1 + length ?fs = cs"
        by (simp_all add: fs)
      from col pos have col2: "col < cs - 1" by linarith
      let ?mw = "if \<not> mx \<or> width > mw ! col then mw[col := width] else mw"
      have len: "length ?mw = cs" using Cons.prems by simp
      from Cons.IH [OF len col(2), of 0]
      obtain mw' where loop: "set_max_loop buf mx cs (col + 1) 0 ?mw
            = Inr (cs - 1, length (last ?fs) + (if length ?fs = 1 then 0 else 0), mw')"
        and len': "length mw' = cs"
        and nth: "\<forall>j<cs. mw' ! j =
               (if col + 1 \<le> j \<and> j < cs - 1
                then (let new = length (?fs ! (j - (col + 1))) + (if j = col + 1 then 0 else 0)
                      in if \<not> mx \<or> new > ?mw ! j then new else ?mw ! j)
                else ?mw ! j)"
        by blast
      have run: "set_max_loop (c # buf) mx cs col width mw
            = Inr (cs - 1, length (last (split_fields (c_string (c # buf))))
                    + (if length (split_fields (c_string (c # buf))) = 1 then width else 0), mw')"
        using loop True c col Cons.prems(1) pos split_fields_nonempty [of "c_string buf"]
        by (simp add: fs)
      have "mw' ! j =
               (if col \<le> j \<and> j < cs - 1
                then (let new = length (split_fields (c_string (c # buf)) ! (j - col))
                                  + (if j = col then width else 0)
                      in if \<not> mx \<or> new > mw ! j then new else mw ! j)
                else mw ! j)" if j: "j < cs" for j
      proof (cases "j = col")
        case True
        with nth j col col2 Cons.prems(1) delim show ?thesis by (simp add: fs Let_def)
      next
        case False
        then have "?mw ! j = mw ! j" by simp
        moreover from False have "col \<le> j \<longleftrightarrow> col + 1 \<le> j" by auto
        moreover have "([] # ?fs) ! (j - col) = ?fs ! (j - (col + 1))" if "col \<le> j"
        proof -
          from that False have "j - col = Suc (j - (col + 1))" by simp
          then show ?thesis by simp
        qed
        ultimately show ?thesis using nth j False delim by (auto simp: fs Let_def)
      qed
      with run len' show ?thesis by blast
    next
      case False
      obtain f rest where spl: "?fs = f # rest"
        using split_fields_nonempty [of "c_string buf"] by (cases ?fs) auto
      with False have fs: "split_fields (c_string (c # buf)) = (c # f) # rest" by (simp add: cstr)
      from Cons.prems have col: "col < cs" "col + length ?fs = cs"
        by (simp_all add: fs spl)
      from Cons.IH [OF Cons.prems(1) col(2), of "width + 1"]
      obtain mw' where loop: "set_max_loop buf mx cs col (width + 1) mw
            = Inr (cs - 1, length (last ?fs) + (if length ?fs = 1 then width + 1 else 0), mw')"
        and len': "length mw' = cs"
        and nth: "\<forall>j<cs. mw' ! j =
               (if col \<le> j \<and> j < cs - 1
                then (let new = length (?fs ! (j - col)) + (if j = col then width + 1 else 0)
                      in if \<not> mx \<or> new > mw ! j then new else mw ! j)
                else mw ! j)"
        by blast
      have run: "set_max_loop (c # buf) mx cs col width mw
            = Inr (cs - 1, length (last (split_fields (c_string (c # buf))))
                    + (if length (split_fields (c_string (c # buf))) = 1 then width else 0), mw')"
        using loop False c col by (auto simp: fs spl)
      have "mw' ! j =
               (if col \<le> j \<and> j < cs - 1
                then (let new = length (split_fields (c_string (c # buf)) ! (j - col))
                                  + (if j = col then width else 0)
                      in if \<not> mx \<or> new > mw ! j then new else mw ! j)
                else mw ! j)" if j: "j < cs" for j
      proof (cases "j = col")
        case True
        with nth j show ?thesis by (simp add: fs spl Let_def)
      next
        case False
        have "((c # f) # rest) ! (j - col) = (f # rest) ! (j - col)" if "col \<le> j"
        proof -
          from that False have "j - col = Suc (j - (col + 1))" by simp
          then show ?thesis by simp
        qed
        with nth j False show ?thesis by (auto simp: fs spl Let_def)
      qed
      with run len' show ?thesis by blast
    qed
  qed
qed

lemma set_max_per_col_matching:
  assumes wf: "cols t = length (max_width t)"
    and cnt: "length (split_fields (c_string buf)) = cols t"
  shows "\<exists>mw'. set_max_per_col buf t mx = Inr (t\<lparr>max_width := mw'\<rparr>)
           \<and> length mw' = cols t
           \<and> (\<forall>j<cols t. mw' ! j =
                 (let new = length (split_fields (c_string buf) ! j)
                  in if \<not> mx \<or> new > max_width t ! j then new else max_width t ! j))"
proof -
  let ?fs = "split_fields (c_string buf)"
  let ?cs = "cols t"
  have pos: "0 < ?cs" using cnt length_split_fields_pos [of "c_string buf"] by simp
  from set_max_loop_widths [of "max_width t" ?cs 0 buf mx 0] wf cnt
  obtain mw1 where loop: "set_max_loop buf mx ?cs 0 0 (max_width t)
        = Inr (?cs - 1, length (last ?fs), mw1)"
    and len1: "length mw1 = ?cs"
    and nth1: "\<forall>j<?cs. mw1 ! j =
               (if j < ?cs - 1
                then (let new = length (?fs ! j)
                      in if \<not> mx \<or> new > max_width t ! j then new else max_width t ! j)
                else max_width t ! j)"
    by (auto simp: Let_def)
  let ?w = "length (last ?fs)"
  let ?mw = "if \<not> mx \<or> ?w > mw1 ! (?cs - 1) then mw1[?cs - 1 := ?w] else mw1"
  have last: "last ?fs = ?fs ! (?cs - 1)"
    using cnt split_fields_nonempty [of "c_string buf"] by (simp add: last_conv_nth)
  have res: "set_max_per_col buf t mx = Inr (t\<lparr>max_width := ?mw\<rparr>)"
    using loop pos len1 by (simp add: set_max_per_col_def)
  have "?mw ! j = (let new = length (?fs ! j)
                  in if \<not> mx \<or> new > max_width t ! j then new else max_width t ! j)"
    if "j < ?cs" for j
  proof (cases "j = ?cs - 1")
    case True
    with nth1 that len1 last show ?thesis by (simp add: Let_def)
  next
    case False
    with that have "j < ?cs - 1" by simp
    with nth1 that False show ?thesis by (simp add: Let_def)
  qed
  moreover have "length ?mw = ?cs" using len1 by simp
  ultimately show ?thesis using res by blast
qed

lemma init_max_per_col_fields:
  "init_max_per_col buf
     = Inr \<lparr>max_width = map length (split_fields (c_string buf)),
            cols = length (split_fields (c_string buf))\<rparr>"
proof -
  let ?fs = "split_fields (c_string buf)"
  let ?t = "\<lparr>max_width = replicate (length ?fs) 0, cols = length ?fs\<rparr>"
  have n: "count_cols buf 0 + 1 = length ?fs"
    using count_cols_fields [of buf 0] by simp
  from set_max_per_col_matching [of ?t buf False]
  obtain mw' where res: "set_max_per_col buf ?t False = Inr (?t\<lparr>max_width := mw'\<rparr>)"
    and len: "length mw' = length ?fs"
    and nth: "\<forall>j<length ?fs. mw' ! j = length (?fs ! j)"
    by (auto simp: Let_def)
  have "mw' = map length ?fs"
    using len nth by (intro nth_equalityI) simp_all
  with res n show ?thesis
    by (simp add: init_max_per_col_def Let_def del: count_cols.simps)
qed

lemma fold_set_max:
  fixes a b :: "nat list"
  assumes "n \<le> length a" and "n \<le> length b"
  shows "length (fold (\<lambda>i mw. if b ! i > mw ! i then mw[i := b ! i] else mw) [0..<n] a) = length a
    \<and> (\<forall>j<length a.
          fold (\<lambda>i mw. if b ! i > mw ! i then mw[i := b ! i] else mw) [0..<n] a ! j
            = (if j < n then max (a ! j) (b ! j) else a ! j))"
  using assms
proof (induction n)
  case 0
  then show ?case by simp
next
  case (Suc n)
  let ?f = "\<lambda>i mw. if b ! i > mw ! i then mw[i := b ! i] else mw"
  let ?r = "fold ?f [0..<n] a"
  from Suc have len: "length ?r = length a"
    and nth: "\<forall>j<length a. ?r ! j = (if j < n then max (a ! j) (b ! j) else a ! j)"
    by simp_all
  have step: "fold ?f [0..<Suc n] a = ?f n ?r" by simp
  from Suc.prems have n: "n < length a" by simp
  with nth have rn: "?r ! n = a ! n" by simp
  have "length (?f n ?r) = length a" using len by simp
  moreover have "?f n ?r ! j = (if j < Suc n then max (a ! j) (b ! j) else a ! j)"
    if j: "j < length a" for j
  proof (cases "j = n")
    case True
    with rn len n show ?thesis by (simp add: max_def)
  next
    case False
    with j nth have "?f n ?r ! j = (if j < n then max (a ! j) (b ! j) else a ! j)"
      by simp
    with False show ?thesis by (simp add: less_Suc_eq)
  qed
  ultimately show ?case unfolding step by blast
qed

lemma set_max_matching:
  assumes "cols dst = cols m1" and "cols dst = length (max_width dst)"
    and "cols m1 = length (max_width m1)"
  shows "\<exists>mw'. set_max dst m1 = Inr (dst\<lparr>max_width := mw'\<rparr>)
           \<and> length mw' = cols dst
           \<and> (\<forall>j<cols dst. mw' ! j = max (max_width dst ! j) (max_width m1 ! j))"
proof -
  let ?mw = "fold (\<lambda>i mw. if max_width m1 ! i > mw ! i then mw[i := max_width m1 ! i] else mw)
               [0..<cols dst] (max_width dst)"
  have "set_max dst m1 = Inr (dst\<lparr>max_width := ?mw\<rparr>)"
    using assms by (simp add: set_max_def)
  moreover have "length ?mw = cols dst"
    "\<forall>j<cols dst. ?mw ! j = max (max_width dst ! j) (max_width m1 ! j)"
    using assms fold_set_max [of "cols dst" "max_width dst" "max_width m1"] by simp_all
  ultimately show ?thesis by blast
qed

text \<open>
  Claim C5. For a tracker whose \<open>max_width\<close> holds \<open>cols\<close> widths (every tracker that
  \<open>init_max_per_col\<close> has set up is one) and a record whose number of fields, as
  \<open>init_max_per_col\<close> counts them, is smaller or larger than \<open>cols\<close>,
  \<open>update_max_per_col\<close> stops the program with the error of \<open>set_max_per_col\<close> and gives
  no tracker back.
\<close>

theorem update_field_count_mismatch:
  assumes "cols t = length (max_width t)"
    and "count_cols buf 0 + 1 \<noteq> cols t"
  shows "update_max_per_col buf t = Inl EntryColumnsMismatch"
proof -
  from assms(2) have "length (split_fields (c_string buf)) \<noteq> cols t"
    using count_cols_fields [of buf 0] by simp
  with assms(1) show ?thesis
    unfolding update_max_per_col_def by (rule set_max_per_col_mismatch)
qed

theorem update_field_count_mismatch_witness:
  "update_max_per_col ''a'' \<lparr>max_width = [2, 1], cols = 2\<rparr> = Inl EntryColumnsMismatch
   \<and> update_max_per_col (''a'' @ [DELIMITER] @ ''b'' @ [DELIMITER] @ ''c'')
        \<lparr>max_width = [2, 1], cols = 2\<rparr> = Inl EntryColumnsMismatch"
proof -
  have wf: "cols \<lparr>max_width = [2, 1], cols = 2\<rparr> = length (max_width \<lparr>max_width = [2, 1], cols = 2\<rparr>)"
    by simp
  have fewer: "count_cols ''a'' 0 + 1 \<noteq> cols \<lparr>max_width = [2, 1], cols = 2\<rparr>"
    by (simp add: NUL_def DELIMITER_def)
  have more: "count_cols (''a'' @ [DELIMITER] @ ''b'' @ [DELIMITER] @ ''c'') 0 + 1
      \<noteq> cols \<lparr>max_width = [2, 1], cols = 2\<rparr>"
    by (simp add: NUL_def DELIMITER_def)
  from update_field_count_mismatch [OF wf fewer] update_field_count_mismatch [OF wf more]
  show ?thesis by simp
qed

text \<open>
  Claim C10. For a tracker holding \<open>cols\<close> widths and a record with \<open>cols\<close> fields,
  \<open>update_max_per_col\<close> succeeds, leaves \<open>cols\<close> as it is and makes every width the
  maximum of its old value and the width of the record's field, so no width decreases.
  \<open>set_max\<close> does the same with the widths of a second tracker of the same \<open>cols\<close>.
\<close>

theorem tracker_monotone:
  "(cols t = length (max_width t) \<and> length (split_fields (c_string buf)) = cols t \<longrightarrow>
      (\<exists>t'. update_max_per_col buf t = Inr t' \<and> cols t' = cols t
         \<and> length (max_width t') = length (max_width t)
         \<and> (\<forall>j<cols t. max_width t' ! j
                          = max (max_width t ! j) (length (split_fields (c_string buf) ! j))
                      \<and> max_width t ! j \<le> max_width t' ! j)))
   \<and> (cols dst = cols m1 \<and> cols dst = length (max_width dst) \<and> cols m1 = length (max_width m1) \<longrightarrow>
      (\<exists>d'. set_max dst m1 = Inr d' \<and> cols d' = cols dst
         \<and> length (max_width d') = length (max_width dst)
         \<and> (\<forall>j<cols dst. max_width d' ! j = max (max_width dst ! j) (max_width m1 ! j)
                        \<and> max_width dst ! j \<le> max_width d' ! j)))"
proof (intro conjI impI)
  assume a: "cols t = length (max_width t) \<and> length (split_fields (c_string buf)) = cols t"
  with set_max_per_col_matching [of t buf True]
  obtain mw' where res: "set_max_per_col buf t True = Inr (t\<lparr>max_width := mw'\<rparr>)"
    and len: "length mw' = cols t"
    and nth: "\<forall>j<cols t. mw' ! j
        = (let new = length (split_fields (c_string buf) ! j)
           in if \<not> True \<or> new > max_width t ! j then new else max_width t ! j)"
    by blast
  from nth have "\<forall>j<cols t. mw' ! j = max (max_width t ! j) (length (split_fields (c_string buf) ! j))
      \<and> max_width t ! j \<le> mw' ! j"
    by (auto simp: Let_def max_def)
  with res len a show "\<exists>t'. update_max_per_col buf t = Inr t' \<and> cols t' = cols t
         \<and> length (max_width t') = length (max_width t)
         \<and> (\<forall>j<cols t. max_width t' ! j
                          = max (max_width t ! j) (length (split_fields (c_string buf) ! j))
                      \<and> max_width t ! j \<le> max_width t' ! j)"
    by (simp add: update_max_per_col_def)
next
  assume a: "cols dst = cols m1 \<and> cols dst = length (max_width dst) \<and> cols m1 = length (max_width m1)"
  with set_max_matching [of dst m1]
  obtain mw' where res: "set_max dst m1 = Inr (dst\<lparr>max_width := mw'\<rparr>)"
    and len: "length mw' = cols dst"
    and nth: "\<forall>j<cols dst. mw' ! j = max (max_width dst ! j) (max_width m1 ! j)"
    by blast
  with a show "\<exists>d'. set_max dst m1 = Inr d' \<and> cols d' = cols dst
         \<and> length (max_width d') = length (max_width dst)
         \<and> (\<forall>j<cols dst. max_width d' ! j = max (max_width dst ! j) (max_width m1 ! j)
                        \<and> max_width dst ! j \<le> max_width d' ! j)"
    by simp
qed

theorem tracker_monotone_witness:
  "update_max_per_col (''ab'' @ [DELIMITER] @ ''c'') \<lparr>max_width = [1, 3], cols = 2\<rparr>
     = Inr \<lparr>max_width = [2, 3], cols = 2\<rparr>
   \<and> set_max \<lparr>max_width = [1, 3], cols = 2\<rparr> \<lparr>max_width = [2, 1], cols = 2\<rparr>
     = Inr \<lparr>max_width = [2, 3], cols = 2\<rparr>"
proof -
  let ?t = "\<lparr>max_width = [1, 3], cols = 2\<rparr>"
  let ?m = "\<lparr>max_width = [2, 1], cols = 2\<rparr>"
  let ?buf = "''ab'' @ [DELIMITER] @ ''c''"
  have fs: "split_fields (c_string ?buf) = [''ab'', ''c'']"
    by (simp add: c_string_def NUL_def DELIMITER_def)
  have h1: "cols ?t = length (max_width ?t) \<and> length (split_fields (c_string ?buf)) = cols ?t"
    unfolding fs by simp
  have h2: "cols ?t = cols ?m \<and> cols ?t = length (max_width ?t) \<and> cols ?m = length (max_width ?m)"
    by simp
  from tracker_monotone [of ?t ?buf ?t ?m] h1 h2
  obtain t' d' where t': "update_max_per_col ?buf ?t = Inr t'" "cols t' = 2"
      "length (max_width t') = 2"
      "\<forall>j<2. max_width t' ! j = max (max_width ?t ! j) (length (split_fields (c_string ?buf) ! j))"
    and d': "set_max ?t ?m = Inr d'" "cols d' = 2" "length (max_width d') = 2"
      "\<forall>j<2. max_width d' ! j = max (max_width ?t ! j) (max_width ?m ! j)"
    by auto
  from t'(4) have "max_width t' ! 0 = 2" "max_width t' ! 1 = 3"
    unfolding fs by simp_all
  with t'(3) have "max_width t' = [2, 3]"
    by (cases "max_width t'"; cases "tl (max_width t')") auto
  with t'(2) have 1: "t' = \<lparr>max_width = [2, 3], cols = 2\<rparr>" by (cases t') simp
  from d'(4) have "max_width d' ! 0 = 2" "max_width d' ! 1 = 3" by simp_all
  with d'(3) have "max_width d' = [2, 3]"
    by (cases "max_width d'"; cases "tl (max_width d')") auto
  with d'(2) have 2: "d' = \<lparr>max_width = [2, 3], cols = 2\<rparr>" by (cases d') simp
  from t'(1) d'(1) 1 2 show ?thesis by simp
qed

lemma bit_length_upper: "n < 2 ^ bit_length n"
proof (induction n rule: bit_length.induct)
  case (1 n)
  show ?case
  proof (cases "n = 0")
    case True
    then show ?thesis by (subst bit_length.simps) simp
  next
    case False
    with 1 have "n div 2 < 2 ^ bit_length (n div 2)" by simp
    then have "n < 2 * 2 ^ bit_length (n div 2)" by linarith
    with False show ?thesis by (subst bit_length.simps) simp
  qed
qed

lemma bit_length_le: "n < 2 ^ k \<Longrightarrow> bit_length n \<le> k"
proof (induction n arbitrary: k rule: bit_length.induct)
  case (1 n)
  show ?case
  proof (cases "n = 0")
    case True
    then show ?thesis by (subst bit_length.simps) simp
  next
    case False
    with "1.prems" obtain k' where k: "k = Suc k'" by (cases k) auto
    with "1.prems" have "n div 2 < 2 ^ k'" by simp
    with 1 False have "bit_length (n div 2) \<le> k'" by simp
    with False k show ?thesis by (subst bit_length.simps) simp
  qed
qed

lemma double_of_ulong_bounds:
  assumes "sz < 2 ^ 64"
  shows "0 \<le> double_of_ulong sz \<and> double_of_ulong sz \<le> 2 ^ 64"
proof (cases "sz < 2 ^ 53")
  case True
  then have "double_of_ulong sz = of_nat sz" by (simp add: double_of_ulong_def)
  moreover have "(of_nat sz :: rat) \<le> of_nat (2 ^ 64)"
    using assms by (simp only: of_nat_le_iff)
  ultimately show ?thesis by simp
next
  case False
  define e where "e = bit_length sz - 53"
  define q where "q = sz div 2 ^ e"
  define r where "r = sz mod 2 ^ e"
  define m where "m = (if 2 * r > 2 ^ e \<or> (2 * r = 2 ^ e \<and> odd q) then q + 1 else q)"
  have d: "double_of_ulong sz = of_nat (m * 2 ^ e)"
    using False by (simp add: double_of_ulong_def Let_def e_def q_def r_def m_def)
  have "\<not> bit_length sz \<le> 53"
  proof
    assume "bit_length sz \<le> 53"
    then have "(2::nat) ^ bit_length sz \<le> 2 ^ 53" by (rule power_increasing) simp
    with bit_length_upper [of sz] False show False by simp
  qed
  then have bl: "bit_length sz = 53 + e" by (simp add: e_def)
  have "sz < 2 ^ 53 * 2 ^ e" using bit_length_upper [of sz] by (simp add: bl power_add)
  then have "q < 2 ^ 53" unfolding q_def by (simp add: less_mult_imp_div_less)
  then have "m \<le> 2 ^ 53" by (simp add: m_def)
  then have "m * 2 ^ e \<le> 2 ^ 53 * 2 ^ e" by simp
  also have "\<dots> = 2 ^ bit_length sz" by (simp add: bl power_add)
  also have "\<dots> \<le> 2 ^ 64" using bit_length_le [OF assms] by (rule power_increasing) simp
  finally have "m * 2 ^ e \<le> 2 ^ 64" .
  then have "(of_nat (m * 2 ^ e) :: rat) \<le> of_nat (2 ^ 64)" by (simp only: of_nat_le_iff)
  with d show ?thesis by simp
qed

lemma human_loop_result:
  assumes "human_loop r u = (r', u')"
  shows "\<exists>k. u' = u + k \<and> r' = r / 1024 ^ k \<and> r' < 1000 \<and> (\<forall>j<k. r / 1024 ^ j \<ge> 1000)"
  using assms
proof (induction r u rule: human_loop.induct)
  case (1 result u)
  show ?case
  proof (cases "result \<ge> 1000")
    case True
    with "1.prems" have "human_loop (result / 1024) (u + 1) = (r', u')"
      by (subst (asm) human_loop.simps) simp
    with "1.IH" True obtain k where k: "u' = u + 1 + k" "r' = result / 1024 / 1024 ^ k"
      "r' < 1000" "\<forall>j<k. result / 1024 / 1024 ^ j \<ge> 1000"
      by blast
    have "result / 1024 ^ j \<ge> 1000" if "j < Suc k" for j
    proof (cases j)
      case 0
      with True show ?thesis by simp
    next
      case (Suc i)
      with that k(4) have "result / 1024 / 1024 ^ i \<ge> 1000" by simp
      with Suc show ?thesis by simp
    qed
    with k(1,2,3) have "u' = u + Suc k \<and> r' = result / 1024 ^ Suc k \<and> r' < 1000
        \<and> (\<forall>j<Suc k. result / 1024 ^ j \<ge> 1000)"
      by simp
    then show ?thesis by blast
  next
    case False
    with "1.prems" have "r' = result" "u' = u"
      by (subst (asm) human_loop.simps, simp)+
    with False have "u' = u + 0 \<and> r' = result / 1024 ^ 0 \<and> r' < 1000
        \<and> (\<forall>j<0. result / 1024 ^ j \<ge> 1000)"
      by simp
    then show ?thesis by blast
  qed
qed

lemma human_loop_unit_bound:
  assumes "human_loop r 0 = (r', u')" and "r \<le> 2 ^ 64"
  shows "u' < 7"
proof (rule ccontr)
  assume "\<not> u' < 7"
  then have "6 < u'" by simp
  moreover from human_loop_result [OF assms(1)]
  have "\<forall>j<u'. r / 1024 ^ j \<ge> 1000" by auto
  ultimately have "r / 1024 ^ 6 \<ge> 1000" by blast
  with assms(2) show False by simp
qed

lemma printf_f_0: "printf_f 0 x = dec (round_half_even x)"
  by (simp add: printf_f_def Let_def)

lemma printf_f_1:
  "printf_f 1 x = dec (round_half_even (x * 10) div 10) @ ''.''
                    @ [digit_char (round_half_even (x * 10) mod 10)]"
  by (simp add: printf_f_def Let_def dec_small)

lemma human_loop_stop: "\<not> r \<ge> 1000 \<Longrightarrow> human_loop r u = (r, u)"
  by (subst human_loop.simps) simp

lemma human_loop_step: "r \<ge> 1000 \<Longrightarrow> human_loop r u = human_loop (r / 1024) (Suc u)"
  by (subst human_loop.simps) simp

lemma print_size_human_megabyte:
  "print_size_human \<lparr>out = [], remain = LINE_SIZE\<rparr> 1048576
     = Inr \<lparr>out = ''1.0M'', remain = LINE_SIZE - 4\<rparr>"
proof -
  have d: "double_of_ulong 1048576 = 1048576" by (simp add: double_of_ulong_def)
  have "human_loop 1048576 0 = human_loop (1048576 / 1024) (Suc 0)"
    by (rule human_loop_step) simp
  also have "\<dots> = human_loop 1024 (Suc 0)" by simp
  also have "\<dots> = human_loop (1024 / 1024) (Suc (Suc 0))"
    by (rule human_loop_step) simp
  also have "\<dots> = human_loop 1 (Suc (Suc 0))" by simp
  also have "\<dots> = (1, Suc (Suc 0))"
    by (rule human_loop_stop) simp
  finally have h: "human_loop (double_of_ulong 1048576) 0 = (1, 2)"
    unfolding d by (simp add: numeral_2_eq_2)
  have r: "round_half_even (1 * 10) = 10" by (simp add: round_half_even_def Let_def)
  have "printf_f 1 1 = ''1.0''"
    unfolding printf_f_1 r by (simp add: dec_small digit_char_def)
  then have p: "printf_f (Suc 0) 1 = ''1.0''" by simp
  show ?thesis
    by (simp add: print_size_human_def h p snprintf_advance_fits LINE_SIZE_def
        units_def print_char_def)
qed

text \<open>
  Claim C3. For every size an \<open>unsigned long\<close> can hold, \<open>print_size_human\<close> divides the
  value by 1024 as long as it is at least 1000 and counts the divisions in \<open>u\<close>, an index
  into \<open>BKMGTPE\<close> that stays below 7; it prints the result with no fractional digit when
  the result is at least 10 or is 0 and with one fractional digit otherwise, then the letter
  \<open>units ! u\<close>, and no letter when \<open>u\<close> is 0. 1048576 bytes are printed as \<open>1.0M\<close>.
\<close>

theorem print_size_human_format:
  assumes "sz < 2 ^ 64"
  shows "\<exists>result u. human_loop (double_of_ulong sz) 0 = (result, u)
     \<and> result = double_of_ulong sz / 1024 ^ u \<and> result < 1000
     \<and> (\<forall>k<u. double_of_ulong sz / 1024 ^ k \<ge> 1000)
     \<and> u < length units
     \<and> print_size_human s sz =
         and_then (snprintf_advance s (printf_f (if result \<ge> 10 \<or> result = 0 then 0 else 1) result))
           (\<lambda>s'. Inr (if u = 0 then s' else print_char s' (units ! u)))
     \<and> printf_f 0 result = dec (round_half_even result)
     \<and> printf_f 1 result = dec (round_half_even (result * 10) div 10) @ ''.''
                              @ [digit_char (round_half_even (result * 10) mod 10)]
     \<and> print_size_human \<lparr>out = [], remain = LINE_SIZE\<rparr> 1048576
         = Inr \<lparr>out = ''1.0M'', remain = LINE_SIZE - 4\<rparr>"
proof -
  obtain result u where h: "human_loop (double_of_ulong sz) 0 = (result, u)"
    by (cases "human_loop (double_of_ulong sz) 0") auto
  from human_loop_result [OF h]
  have r: "result = double_of_ulong sz / 1024 ^ u" "result < 1000"
    "\<forall>k<u. double_of_ulong sz / 1024 ^ k \<ge> 1000"
    by auto
  from double_of_ulong_bounds [OF assms] human_loop_unit_bound [OF h]
  have u: "u < length units" by (simp add: units_def)
  have p: "print_size_human s sz =
         and_then (snprintf_advance s (printf_f (if result \<ge> 10 \<or> result = 0 then 0 else 1) result))
           (\<lambda>s'. Inr (if u = 0 then s' else print_char s' (units ! u)))"
    using u by (auto simp: print_size_human_def h and_then_def split: sum.splits)
  from h r u p printf_f_0 [of result] printf_f_1 [of result] print_size_human_megabyte
  show ?thesis by blast
qed

theorem print_size_human_format_witness:
  "(1536 :: nat) < 2 ^ 64
   \<and> print_size_human \<lparr>out = [], remain = LINE_SIZE\<rparr> 1536
       = Inr \<lparr>out = ''1.5K'', remain = LINE_SIZE - 4\<rparr>"
proof -
  have b: "(1536 :: nat) < 2 ^ 64" by simp
  from print_size_human_format [OF b, of "\<lparr>out = [], remain = LINE_SIZE\<rparr>"]
  obtain result u where h: "human_loop (double_of_ulong 1536) 0 = (result, u)"
    and p: "print_size_human \<lparr>out = [], remain = LINE_SIZE\<rparr> 1536 =
         and_then (snprintf_advance \<lparr>out = [], remain = LINE_SIZE\<rparr>
                     (printf_f (if result \<ge> 10 \<or> result = 0 then 0 else 1) result))
           (\<lambda>s'. Inr (if u = 0 then s' else print_char s' (units ! u)))"
    by blast
  have d: "double_of_ulong 1536 = 1536" by (simp add: double_of_ulong_def)
  have "human_loop 1536 0 = human_loop (1536 / 1024) (Suc 0)"
    by (rule human_loop_step) simp
  also have "\<dots> = human_loop (3 / 2) (Suc 0)" by simp
  also have "\<dots> = (3 / 2, Suc 0)"
    by (rule human_loop_stop) simp
  finally have "human_loop (double_of_ulong 1536) 0 = (3 / 2, 1)"
    unfolding d by simp
  with h have ru: "result = 3 / 2" "u = 1" by simp_all
  have r: "round_half_even (3 / 2 * 10) = 15" by (simp add: round_half_even_def Let_def)
  have "printf_f 1 (3 / 2) = ''1.5''"
    unfolding printf_f_1 r by (simp add: dec_small digit_char_def)
  then have t: "printf_f (Suc 0) (3 / 2) = ''1.5''" by simp
  from p b show ?thesis
    unfolding ru
    by (simp add: t snprintf_advance_fits LINE_SIZE_def units_def print_char_def and_then_def)
qed

lemma fold_print_char:
  "fold (\<lambda>c s. print_char s c) cs s
     = s\<lparr>out := out s @ take (remain s) cs, remain := remain s - length cs\<rparr>"
proof (induction cs arbitrary: s)
  case Nil
  then show ?case by simp
next
  case (Cons c cs)
  show ?case
  proof (cases "remain s")
    case 0
    with Cons show ?thesis by (simp add: print_char_def)
  next
    case (Suc n)
    with Cons show ?thesis by (simp add: print_char_def)
  qed
qed

lemma print_char_fold: "print_char s c = fold (\<lambda>c s. print_char s c) [c] s"
  by simp

lemma print_name_fold:
  "print_name s nm flag = fold (\<lambda>c s. print_char s c) (rendered_name nm flag) s"
  by (simp add: print_name_def rendered_name_def fold_map comp_def)

lemma print_type_symbol_fold:
  "print_type_symbol s st flag = fold (\<lambda>c s. print_char s c) (type_symbol st flag) s"
  by (simp add: print_type_symbol_def type_symbol_def Let_def print_char_def)

lemma length_type_symbol: "length (type_symbol st flag) \<le> 1"
  by (simp add: print_type_symbol_def type_symbol_def Let_def print_char_def)

lemma advances_refl: "advances s s"
  by (simp add: advances_def)

lemma advances_trans:
  assumes "advances s s'" and "advances s' s''"
  shows "advances s s''"
proof -
  from assms have sum: "length (out s'') + remain s'' = length (out s) + remain s"
    and le: "remain s'' \<le> remain s'" "remain s' \<le> remain s"
    by (simp_all add: advances_def)
  have "take (length (out s)) (out s'') = out s" if "1 \<le> remain s''"
  proof -
    from that le have r: "1 \<le> remain s'" by simp
    with assms that have t: "take (length (out s)) (out s') = out s"
      "take (length (out s')) (out s'') = out s'"
      by (simp_all add: advances_def)
    from assms le have "length (out s) \<le> length (out s')" by (simp add: advances_def)
    then have "take (length (out s)) (out s'') = take (length (out s)) (take (length (out s')) (out s''))"
      by (simp add: min_def)
    with t show ?thesis by simp
  qed
  with sum le show ?thesis by (simp add: advances_def)
qed

lemma advances_fold_print_char: "advances s (fold (\<lambda>c s. print_char s c) cs s)"
  by (auto simp: fold_print_char advances_def)

lemma advances_print_char: "advances s (print_char s c)"
  using advances_fold_print_char [of s "[c]"] by simp

lemma advances_print_delim: "advances s (print_delim s)"
  by (simp add: print_delim_def advances_print_char)

lemma advances_print_name: "advances s (print_name s nm flag)"
  by (simp add: print_name_fold advances_fold_print_char)

lemma advances_print_type_symbol: "advances s (print_type_symbol s st flag)"
  by (simp add: print_type_symbol_fold advances_fold_print_char)

lemma advances_snprintf:
  "snprintf_advance s txt = Inr s' \<Longrightarrow> advances s s'"
  by (auto simp: snprintf_advance_def advances_def Let_def split: if_splits)

lemma advances_print_size_dec: "print_size_dec s n = Inr s' \<Longrightarrow> advances s s'"
  by (simp add: print_size_dec_def advances_snprintf)

lemma advances_print_size_kilo: "print_size_kilo s n = Inr s' \<Longrightarrow> advances s s'"
  by (simp add: print_size_kilo_def Let_def advances_print_size_dec)

lemma advances_print_size_human: "print_size_human s n = Inr s' \<Longrightarrow> advances s s'"
  by (auto simp: print_size_human_def Let_def split: prod.splits sum.splits if_splits
      intro: advances_snprintf advances_trans advances_print_char)

lemma advances_print_blks: "print_blks s b flag e = Inr s' \<Longrightarrow> advances s s'"
  by (auto simp: print_blks_def Let_def split: if_splits sum.splits
      intro: advances_print_size_dec advances_print_size_kilo advances_print_size_human)

lemma advances_print_owner: "print_owner s st flag e = Inr s' \<Longrightarrow> advances s s'"
  by (auto simp: print_owner_def split: option.splits if_splits
      intro: advances_print_size_dec advances_print_name)

lemma advances_print_group: "print_group s st flag e = Inr s' \<Longrightarrow> advances s s'"
  by (auto simp: print_group_def split: option.splits if_splits
      intro: advances_print_size_dec advances_print_name)

lemma advances_print_size:
  assumes "print_size s st flag = Inr s'"
  shows "advances s s'"
proof (cases "S_ISBLK (st_mode st) \<or> S_ISCHR (st_mode st)")
  case True
  with assms obtain s1 where 1: "print_size_dec s (major (st_rdev st)) = Inr s1"
    and 2: "print_size_dec (print_char s1 (CHR '','')) (minor (st_rdev st)) = Inr s'"
    by (auto simp: print_size_def Let_def split: sum.splits)
  from 1 have "advances s s1" by (rule advances_print_size_dec)
  moreover have "advances s1 (print_char s1 (CHR '',''))" by (rule advances_print_char)
  moreover from 2 have "advances (print_char s1 (CHR '','')) s'" by (rule advances_print_size_dec)
  ultimately show ?thesis by (blast intro: advances_trans)
next
  case False
  with assms show ?thesis
    by (auto simp: print_size_def Let_def split: if_splits
        intro: advances_print_size_dec advances_print_size_kilo advances_print_size_human)
qed

lemma advances_print_time: "print_time s st flag e = Inr s' \<Longrightarrow> advances s s'"
  by (auto simp: print_time_def Let_def split: option.splits if_splits
      intro: advances_snprintf)

lemma advances_print_link: "print_link s dir nm st flag e = Inr s' \<Longrightarrow> advances s s'"
  by (auto simp: print_link_def Let_def split: sum.splits option.splits if_splits
      intro: advances_snprintf advances_trans advances_print_type_symbol)

declare advances_trans [trans]

lemma print_delim_last:
  assumes "1 \<le> remain (print_delim s)"
  shows "out (print_delim s) = out s @ [DELIMITER]"
  using assms by (auto simp: print_delim_def print_char_def split: if_splits)

lemma length_strmode: "length (strmode m) = 11"
  by (simp add: strmode_def)

lemma and_then_Inr:
  "and_then m f = Inr y \<Longrightarrow> \<exists>x. m = Inr x \<and> f x = Inr y"
  by (cases m) (simp_all add: and_then_def)

lemma print_long_ends:
  assumes "print_long s st flag e = Inr s'"
  shows "advances s s' \<and> (if 1 \<le> remain s' then out s' \<noteq> [] \<and> last (out s') = DELIMITER else True)"
proof -
  let ?s0 = "s\<lparr>out := out s @ take 10 (strmode (st_mode st)), remain := remain s - 10\<rparr>"
  from assms have room: "\<not> remain s < 12"
    by (auto simp: print_long_def split: if_splits)
  with assms have chain: "and_then (print_linkc (print_delim ?s0) st) (\<lambda>s.
        and_then (print_owner (print_delim s) st flag e) (\<lambda>s.
        and_then (print_group (print_delim s) st flag e) (\<lambda>s.
        and_then (print_size (print_delim s) st flag) (\<lambda>s.
        and_then (print_time (print_delim s) st flag e) (\<lambda>s.
        Inr (print_delim s)))))) = Inr s'"
    by (simp add: print_long_def)
  from and_then_Inr [OF chain] obtain s1 where 1: "print_linkc (print_delim ?s0) st = Inr s1"
    and c1: "and_then (print_owner (print_delim s1) st flag e) (\<lambda>s.
        and_then (print_group (print_delim s) st flag e) (\<lambda>s.
        and_then (print_size (print_delim s) st flag) (\<lambda>s.
        and_then (print_time (print_delim s) st flag e) (\<lambda>s.
        Inr (print_delim s))))) = Inr s'"
    by blast
  from and_then_Inr [OF c1] obtain s2 where 2: "print_owner (print_delim s1) st flag e = Inr s2"
    and c2: "and_then (print_group (print_delim s2) st flag e) (\<lambda>s.
        and_then (print_size (print_delim s) st flag) (\<lambda>s.
        and_then (print_time (print_delim s) st flag e) (\<lambda>s.
        Inr (print_delim s)))) = Inr s'"
    by blast
  from and_then_Inr [OF c2] obtain s3 where 3: "print_group (print_delim s2) st flag e = Inr s3"
    and c3: "and_then (print_size (print_delim s3) st flag) (\<lambda>s.
        and_then (print_time (print_delim s) st flag e) (\<lambda>s.
        Inr (print_delim s))) = Inr s'"
    by blast
  from and_then_Inr [OF c3] obtain s4 where 4: "print_size (print_delim s3) st flag = Inr s4"
    and c4: "and_then (print_time (print_delim s4) st flag e) (\<lambda>s. Inr (print_delim s)) = Inr s'"
    by blast
  from and_then_Inr [OF c4] obtain s5 where 5: "print_time (print_delim s4) st flag e = Inr s5"
    and s': "s' = print_delim s5"
    by auto
  have "advances s ?s0" using room by (simp add: advances_def length_strmode)
  also have "advances ?s0 (print_delim ?s0)" by (rule advances_print_delim)
  also from 1 have "advances (print_delim ?s0) s1"
    by (simp add: print_linkc_def advances_print_size_dec)
  also have "advances s1 (print_delim s1)" by (rule advances_print_delim)
  also from 2 have "advances (print_delim s1) s2" by (rule advances_print_owner)
  also have "advances s2 (print_delim s2)" by (rule advances_print_delim)
  also from 3 have "advances (print_delim s2) s3" by (rule advances_print_group)
  also have "advances s3 (print_delim s3)" by (rule advances_print_delim)
  also from 4 have "advances (print_delim s3) s4" by (rule advances_print_size)
  also have "advances s4 (print_delim s4)" by (rule advances_print_delim)
  also from 5 have "advances (print_delim s4) s5" by (rule advances_print_time)
  also have "advances s5 (print_delim s5)" by (rule advances_print_delim)
  finally have "advances s s'" unfolding s' .
  moreover have "out s' \<noteq> [] \<and> last (out s') = DELIMITER" if "1 \<le> remain s'"
    using print_delim_last [of s5] that unfolding s' by simp
  ultimately show ?thesis by simp
qed

lemma print_delim_ends:
  "advances s s1 \<Longrightarrow>
   advances s (print_delim s1) \<and>
   (if 1 \<le> remain (print_delim s1)
    then out (print_delim s1) \<noteq> [] \<and> last (out (print_delim s1)) = DELIMITER else True)"
  using print_delim_last [of s1] advances_trans [OF _ advances_print_delim [of s1]]
  by auto

lemma print_file_states:
  assumes pf: "print_file n dir nm st flag e = Inr bytes"
    and disp: "dflag flag \<or> display_file dir nm flag"
  shows "\<exists>s3 s6.
     advances \<lparr>out = [], remain = n\<rparr> s3
     \<and> (if 1 \<le> remain s3 then out s3 = [] \<or> last (out s3) = DELIMITER else True)
     \<and> (if (lflag flag \<or> nflag flag) \<and> S_ISLNK (st_mode st)
         then print_link (if Fflag flag then print_type_symbol (print_name s3 nm flag) st flag
                          else print_name s3 nm flag) dir nm st flag e = Inr s6
         else s6 = (if Fflag flag then print_type_symbol (print_name s3 nm flag) st flag
                    else print_name s3 nm flag))
     \<and> bytes = out (print_char s6 NUL)"
proof -
  let ?P = "\<lambda>s0 s. advances s0 s
     \<and> (if 1 \<le> remain s then out s = [] \<or> last (out s) = DELIMITER else True)"
  let ?s0 = "\<lparr>out = [], remain = n\<rparr>"
  let ?p1 = "if iflag flag
             then and_then (print_inode ?s0 st) (\<lambda>s. Inr (print_delim s))
             else Inr ?s0"
  let ?p2 = "\<lambda>s. if sflag flag
             then and_then (print_blks s (st_blocks st) flag e) (\<lambda>s. Inr (print_delim s))
             else Inr s"
  let ?p3 = "\<lambda>s. if lflag flag \<or> nflag flag then print_long s st flag e else Inr s"
  let ?p6 = "\<lambda>s. if (lflag flag \<or> nflag flag) \<and> S_ISLNK (st_mode st)
                  then print_link s dir nm st flag e else Inr s"
  let ?s5 = "\<lambda>s3. if Fflag flag then print_type_symbol (print_name s3 nm flag) st flag
                  else print_name s3 nm flag"
  from disp have nd: "(\<not> dflag flag \<and> \<not> display_file dir nm flag) = False" by simp
  from pf have chain: "and_then ?p1 (\<lambda>s. and_then (?p2 s) (\<lambda>s. and_then (?p3 s) (\<lambda>s.
      and_then (Inr (print_name s nm flag)) (\<lambda>s.
      and_then (Inr (if Fflag flag then print_type_symbol s st flag else s)) (\<lambda>s.
      and_then (?p6 s) (\<lambda>s. Inr (out (print_char s NUL)))))))) = Inr bytes"
    unfolding print_file_def nd if_False .
  from and_then_Inr [OF chain] obtain s1 where 1: "?p1 = Inr s1"
    and c1: "and_then (?p2 s1) (\<lambda>s. and_then (?p3 s) (\<lambda>s.
      and_then (Inr (print_name s nm flag)) (\<lambda>s.
      and_then (Inr (if Fflag flag then print_type_symbol s st flag else s)) (\<lambda>s.
      and_then (?p6 s) (\<lambda>s. Inr (out (print_char s NUL))))))) = Inr bytes"
    by blast
  from and_then_Inr [OF c1] obtain s2 where 2: "?p2 s1 = Inr s2"
    and c2: "and_then (?p3 s2) (\<lambda>s.
      and_then (Inr (print_name s nm flag)) (\<lambda>s.
      and_then (Inr (if Fflag flag then print_type_symbol s st flag else s)) (\<lambda>s.
      and_then (?p6 s) (\<lambda>s. Inr (out (print_char s NUL)))))) = Inr bytes"
    by blast
  from and_then_Inr [OF c2] obtain s3 where 3: "?p3 s2 = Inr s3"
    and c3: "and_then (Inr (print_name s3 nm flag)) (\<lambda>s.
      and_then (Inr (if Fflag flag then print_type_symbol s st flag else s)) (\<lambda>s.
      and_then (?p6 s) (\<lambda>s. Inr (out (print_char s NUL))))) = Inr bytes"
    by blast
  from c3 have c4: "and_then (?p6 (?s5 s3)) (\<lambda>s. Inr (out (print_char s NUL))) = Inr bytes"
    by (simp add: and_then_def)
  from and_then_Inr [OF c4] obtain s6 where 6: "?p6 (?s5 s3) = Inr s6"
    and b: "bytes = out (print_char s6 NUL)"
    by auto
  have P1: "?P ?s0 s1"
  proof (cases "iflag flag")
    case True
    with 1 obtain s where "print_inode ?s0 st = Inr s" "s1 = print_delim s"
      using and_then_Inr [of "print_inode ?s0 st" "\<lambda>s. Inr (print_delim s)" s1] by auto
    then show ?thesis
      using print_delim_ends [of ?s0 s] by (simp add: print_inode_def advances_print_size_dec)
  next
    case False
    with 1 show ?thesis by (auto simp: advances_refl)
  qed
  have P2: "?P ?s0 s2"
  proof (cases "sflag flag")
    case True
    with 2 obtain s where s: "print_blks s1 (st_blocks st) flag e = Inr s" "s2 = print_delim s"
      using and_then_Inr [of "print_blks s1 (st_blocks st) flag e" "\<lambda>s. Inr (print_delim s)" s2]
      by auto
    from P1 advances_print_blks [OF s(1)] have "advances ?s0 s" by (blast intro: advances_trans)
    with s(2) show ?thesis using print_delim_ends [of ?s0 s] by simp
  next
    case False
    with 2 have eq: "s2 = s1" by simp
    show ?thesis unfolding eq by (rule P1)
  qed
  have P3: "?P ?s0 s3"
  proof (cases "lflag flag \<or> nflag flag")
    case True
    with 3 have "print_long s2 st flag e = Inr s3" by simp
    from print_long_ends [OF this] P2 show ?thesis
      by (auto intro: advances_trans split: if_splits)
  next
    case False
    with 3 have eq: "s3 = s2" by simp
    show ?thesis unfolding eq by (rule P2)
  qed
  have L: "if (lflag flag \<or> nflag flag) \<and> S_ISLNK (st_mode st)
           then print_link (?s5 s3) dir nm st flag e = Inr s6 else s6 = ?s5 s3"
  proof (cases "(lflag flag \<or> nflag flag) \<and> S_ISLNK (st_mode st)")
    case True
    with 6 have "print_link (?s5 s3) dir nm st flag e = Inr s6" by simp
    then show ?thesis unfolding if_P [OF True] .
  next
    case False
    with 6 have "s6 = ?s5 s3" by auto
    then show ?thesis unfolding if_not_P [OF False] .
  qed
  from P3 L b show ?thesis by blast
qed

lemma advances_extends:
  assumes "advances s s'" and "1 \<le> remain s'"
  shows "\<exists>x. out s' = out s @ x"
proof -
  from assms have "take (length (out s)) (out s') = out s" by (simp add: advances_def)
  then have "out s' = out s @ drop (length (out s)) (out s')"
    by (metis append_take_drop_id)
  then show ?thesis by blast
qed

lemma print_link_arrow:
  assumes "print_link s dir nm st flag e = Inr s'" and "1 \<le> remain s'"
  shows "\<exists>x. out s' = out s @ '' -> '' @ x"
proof -
  from assms(1) obtain tgt s1 where 1: "snprintf_advance s ('' -> '' @ tgt) = Inr s1"
    and 2: "s' = s1 \<or> (\<exists>lsb. s' = print_type_symbol s1 lsb flag)"
    by (auto simp: print_link_def Let_def split: sum.splits option.splits if_splits)
  from 2 have adv: "advances s1 s'" by (auto simp: advances_refl advances_print_type_symbol)
  with assms(2) have r1: "1 \<le> remain s1" by (simp add: advances_def)
  with 1 have "out s1 = out s @ '' -> '' @ tgt"
    by (auto simp: snprintf_advance_def Let_def split: if_splits)
  moreover from advances_extends [OF adv assms(2)] obtain y where "out s' = out s1 @ y" ..
  ultimately show ?thesis by simp
qed

lemma name_symbol_written:
  assumes "1 \<le> remain (fold (\<lambda>c s. print_char s c) cs s)"
  shows "out (fold (\<lambda>c s. print_char s c) cs s) = out s @ cs
    \<and> remain s = remain (fold (\<lambda>c s. print_char s c) cs s) + length cs"
  using assms by (simp add: fold_print_char)

lemma exec_bits:
  "(m AND (S_IXUSR OR S_IXGRP OR S_IXOTH) \<noteq> 0)
     \<longleftrightarrow> (m AND S_IXUSR \<noteq> 0 \<or> m AND S_IXGRP \<noteq> 0 \<or> m AND S_IXOTH \<noteq> 0)"
  for m :: mode_t
  by (simp add: bit.conj_disj_distrib or_eq_0_iff)

lemma type_symbol_table:
  "(st_mode st AND S_IFMT = S_IFDIR \<longrightarrow> type_symbol st flag = ''/'')
   \<and> (st_mode st AND S_IFMT = S_IFIFO \<longrightarrow> type_symbol st flag = ''|'')
   \<and> (st_mode st AND S_IFMT = S_IFLNK \<longrightarrow>
        type_symbol st flag = (if lflag flag \<or> nflag flag then [] else ''@''))
   \<and> (st_mode st AND S_IFMT = S_IFSOCK \<longrightarrow> type_symbol st flag = ''='')
   \<and> (st_mode st AND S_IFMT = S_IFWHT \<longrightarrow> type_symbol st flag = ''%'')
   \<and> (st_mode st AND S_IFMT \<notin> {S_IFDIR, S_IFIFO, S_IFLNK, S_IFSOCK, S_IFWHT} \<longrightarrow>
        type_symbol st flag
          = (if st_mode st AND S_IXUSR \<noteq> 0 \<or> st_mode st AND S_IXGRP \<noteq> 0
                \<or> st_mode st AND S_IXOTH \<noteq> 0
             then ''*'' else []))"
proof -
  have d: "S_IFDIR \<noteq> S_IFIFO" "S_IFDIR \<noteq> S_IFLNK" "S_IFDIR \<noteq> S_IFSOCK" "S_IFDIR \<noteq> S_IFWHT"
    "S_IFIFO \<noteq> S_IFLNK" "S_IFIFO \<noteq> S_IFSOCK" "S_IFIFO \<noteq> S_IFWHT"
    "S_IFLNK \<noteq> S_IFSOCK" "S_IFLNK \<noteq> S_IFWHT" "S_IFSOCK \<noteq> S_IFWHT"
    by (simp_all add: S_IFDIR_def S_IFIFO_def S_IFLNK_def S_IFSOCK_def S_IFWHT_def)
  show ?thesis
    using d exec_bits [of "st_mode st"]
    by (auto simp: type_symbol_def print_type_symbol_def Let_def print_char_def)
qed

lemma print_file_name_symbol:
  assumes pf: "print_file n dir nm st flag e = Inr bytes"
    and len: "length bytes < n"
    and F: "Fflag flag"
    and disp: "dflag flag \<or> display_file dir nm flag"
  shows "\<exists>pre rest. bytes = pre @ rendered_name nm flag @ type_symbol st flag @ rest
           \<and> (pre = [] \<or> last pre = DELIMITER)
           \<and> (rest = [NUL] \<or> (S_ISLNK (st_mode st) \<and> take 4 rest = '' -> ''))"
proof -
  let ?s0 = "\<lparr>out = [], remain = n\<rparr>"
  let ?pc = "\<lambda>c s. print_char s c"
  from print_file_states [OF pf disp] obtain s3 s6
    where a3: "advances ?s0 s3"
      and d3: "if 1 \<le> remain s3 then out s3 = [] \<or> last (out s3) = DELIMITER else True"
      and l6': "if (lflag flag \<or> nflag flag) \<and> S_ISLNK (st_mode st)
         then print_link (if Fflag flag then print_type_symbol (print_name s3 nm flag) st flag
                          else print_name s3 nm flag) dir nm st flag e = Inr s6
         else s6 = (if Fflag flag then print_type_symbol (print_name s3 nm flag) st flag
                    else print_name s3 nm flag)"
      and b: "bytes = out (print_char s6 NUL)"
    by blast
  note l6 = l6' [unfolded if_P [OF F]]
  let ?s5 = "print_type_symbol (print_name s3 nm flag) st flag"
  let ?cs = "rendered_name nm flag @ type_symbol st flag"
  have s5: "?s5 = fold ?pc ?cs s3"
    by (simp add: print_name_fold print_type_symbol_fold)
  have a35: "advances s3 ?s5" unfolding s5 by (rule advances_fold_print_char)
  have a56: "advances ?s5 s6"
  proof (cases "(lflag flag \<or> nflag flag) \<and> S_ISLNK (st_mode st)")
    case True
    with l6 have "print_link ?s5 dir nm st flag e = Inr s6" by simp
    then show ?thesis by (rule advances_print_link)
  next
    case False
    with l6 have "s6 = ?s5" by auto
    then show ?thesis by (simp add: advances_refl)
  qed
  from a3 a35 a56 have a6: "advances ?s0 s6" by (blast intro: advances_trans)
  then have sum: "length (out s6) + remain s6 = n" by (simp add: advances_def)
  have r6: "1 \<le> remain s6"
  proof (rule ccontr)
    assume "\<not> 1 \<le> remain s6"
    then have "remain s6 = 0" by simp
    with b sum have "length bytes = n" by (simp add: print_char_def)
    with len show False by simp
  qed
  with b have bytes: "bytes = out s6 @ [NUL]" by (simp add: print_char_def)
  from a56 r6 have r5: "1 \<le> remain ?s5" by (simp add: advances_def)
  from name_symbol_written [of ?cs s3] r5
  have o5: "out ?s5 = out s3 @ ?cs" and "remain s3 = remain ?s5 + length ?cs"
    unfolding s5 by simp_all
  with r5 have "1 \<le> remain s3" by simp
  with d3 have pre: "out s3 = [] \<or> last (out s3) = DELIMITER" by simp
  have "\<exists>x. out s6 = out ?s5 @ x \<and> (x = [] \<or> (S_ISLNK (st_mode st) \<and> (\<exists>y. x = '' -> '' @ y)))"
  proof (cases "(lflag flag \<or> nflag flag) \<and> S_ISLNK (st_mode st)")
    case True
    with l6 have "print_link ?s5 dir nm st flag e = Inr s6" by simp
    from print_link_arrow [OF this r6] True show ?thesis by auto
  next
    case False
    with l6 have "s6 = ?s5" by auto
    then show ?thesis by simp
  qed
  then obtain x where x: "out s6 = out ?s5 @ x"
    "x = [] \<or> (S_ISLNK (st_mode st) \<and> (\<exists>y. x = '' -> '' @ y))"
    by blast
  from x(2) have rest: "x @ [NUL] = [NUL] \<or> (S_ISLNK (st_mode st) \<and> take 4 (x @ [NUL]) = '' -> '')"
    by auto
  from bytes x(1) o5
  have "bytes = out s3 @ rendered_name nm flag @ type_symbol st flag @ (x @ [NUL])"
    by simp
  with pre rest show ?thesis by blast
qed

text \<open>
  Claim C7. With the append-type-symbol option set, \<open>print_file\<close> writes the symbol right
  after the rendered name, with no delimiter between them: whenever the record leaves room
  in the buffer, it is a (possibly empty) run of delimiter-terminated fields, the name, the
  symbol, and then the terminating NUL or, for a symbolic link in long format, the text
  that starts with \<open> -> \<close>. The symbol is \<open>/\<close> for a directory, \<open>|\<close> for a fifo, \<open>@\<close> for a
  symbolic link unless the long format is active (then none), \<open>=\<close> for a socket, \<open>%\<close> for a
  whiteout, \<open>*\<close> for any other entry with one of the three executable bits set, and none
  for the remaining entries.
\<close>

theorem type_symbol_follows_name:
  "(st_mode st AND S_IFMT = S_IFDIR \<longrightarrow> type_symbol st flag = ''/'')
   \<and> (st_mode st AND S_IFMT = S_IFIFO \<longrightarrow> type_symbol st flag = ''|'')
   \<and> (st_mode st AND S_IFMT = S_IFLNK \<longrightarrow>
        type_symbol st flag = (if lflag flag \<or> nflag flag then [] else ''@''))
   \<and> (st_mode st AND S_IFMT = S_IFSOCK \<longrightarrow> type_symbol st flag = ''='')
   \<and> (st_mode st AND S_IFMT = S_IFWHT \<longrightarrow> type_symbol st flag = ''%'')
   \<and> (st_mode st AND S_IFMT \<notin> {S_IFDIR, S_IFIFO, S_IFLNK, S_IFSOCK, S_IFWHT} \<longrightarrow>
        type_symbol st flag
          = (if st_mode st AND S_IXUSR \<noteq> 0 \<or> st_mode st AND S_IXGRP \<noteq> 0
                \<or> st_mode st AND S_IXOTH \<noteq> 0
             then ''*'' else []))
   \<and> (1 \<le> remain s \<longrightarrow> out (print_type_symbol s st flag) = out s @ type_symbol st flag)
   \<and> (print_file n dir nm st flag e = Inr bytes \<and> length bytes < n \<and> Fflag flag
        \<and> (dflag flag \<or> display_file dir nm flag) \<longrightarrow>
        (\<exists>pre rest. bytes = pre @ rendered_name nm flag @ type_symbol st flag @ rest
           \<and> (pre = [] \<or> last pre = DELIMITER)
           \<and> (rest = [NUL] \<or> (S_ISLNK (st_mode st) \<and> take 4 rest = '' -> ''))))"
proof -
  have "out (print_type_symbol s st flag) = out s @ type_symbol st flag" if "1 \<le> remain s"
  proof -
    from length_type_symbol [of st flag] that
    have "take (remain s) (type_symbol st flag) = type_symbol st flag" by simp
    then show ?thesis by (simp add: print_type_symbol_fold fold_print_char)
  qed
  with type_symbol_table [of st flag] print_file_name_symbol [of n dir nm st flag e bytes]
  show ?thesis by blast
qed

lemma print_file_short:
  assumes "\<not> iflag flag" "\<not> sflag flag" "\<not> lflag flag" "\<not> nflag flag"
    and "dflag flag \<or> display_file dir nm flag"
  shows "print_file n dir nm st flag e
    = Inr (take n (rendered_name nm flag @ (if Fflag flag then type_symbol st flag else []) @ [NUL]))"
proof -
  let ?pc = "\<lambda>c s. print_char s c"
  let ?s0 = "\<lparr>out = [], remain = n\<rparr>"
  let ?ys = "rendered_name nm flag @ (if Fflag flag then type_symbol st flag else [])"
  have "print_file n dir nm st flag e
      = Inr (out (print_char (if Fflag flag then print_type_symbol (print_name ?s0 nm flag) st flag
                              else print_name ?s0 nm flag) NUL))"
  proof -
    from assms(5) have nd: "(\<not> dflag flag \<and> \<not> display_file dir nm flag) = False" by simp
    show ?thesis using assms(1-4) by (simp add: print_file_def and_then_def nd)
  qed
  also have "(if Fflag flag then print_type_symbol (print_name ?s0 nm flag) st flag
              else print_name ?s0 nm flag)
      = \<lparr>out = take n ?ys, remain = n - length ?ys\<rparr>"
    by (simp add: print_name_fold print_type_symbol_fold fold_print_char)
  also have "out (print_char \<lparr>out = take n ?ys, remain = n - length ?ys\<rparr> NUL) = take n (?ys @ [NUL])"
    by (simp add: print_char_def)
  finally show ?thesis by simp
qed

lemma print_name_cut:
  "print_name s nm flag
     = s\<lparr>out := out s @ take (remain s) (rendered_name nm flag),
          remain := remain s - length (rendered_name nm flag)\<rparr>"
  by (simp add: print_name_fold fold_print_char)

lemma print_long_too_small:
  "remain s < 12 \<Longrightarrow> print_long s st flag e = Inl BufferTooSmallForMode"
  by (simp add: print_long_def)

lemma c_string_replicate: "c \<noteq> NUL \<Longrightarrow> c_string (replicate k c) = replicate k c"
  by (simp add: c_string_def)

lemma display_file_replicate:
  assumes "c \<noteq> NUL" "c \<noteq> CHR ''.''"
  shows "display_file dir (replicate k c) flag"
proof -
  have "replicate k c \<noteq> ''.''" "replicate k c \<noteq> ''..''" "take 1 (replicate k c) \<noteq> ''.''"
    using assms(2) by (cases k; simp)+
  then show ?thesis
    by (simp add: display_file_def is_dot_dir_def is_hidden_file_def c_string_replicate [OF assms(1)])
qed

lemma take_replicate_append: "n \<le> k \<Longrightarrow> take n (replicate k c @ xs) = replicate n c"
  by (simp add: min_def)

lemma and_then_assoc: "and_then (and_then m f) g = and_then m (\<lambda>x. and_then (f x) g)"
  by (cases m) (simp_all add: and_then_def)

lemma and_then_Inl:
  "and_then m f = Inl er \<Longrightarrow> m = Inl er \<or> (\<exists>x. m = Inr x \<and> f x = Inl er)"
  by (cases m) (simp_all add: and_then_def)

lemma print_file_fields:
  "print_file n dir nm st flag e =
     (if \<not> dflag flag \<and> \<not> display_file dir nm flag then Inr []
      else and_then (record_fields n st flag e) (\<lambda>s.
             and_then (if (lflag flag \<or> nflag flag) \<and> S_ISLNK (st_mode st)
                       then print_link (if Fflag flag
                                        then print_type_symbol (print_name s nm flag) st flag
                                        else print_name s nm flag) dir nm st flag e
                       else Inr (if Fflag flag
                                 then print_type_symbol (print_name s nm flag) st flag
                                 else print_name s nm flag))
               (\<lambda>s. Inr (out (print_char s NUL)))))"
proof -
  have 1: "and_then (Inr x) f = f x" for x :: pbuf and f :: "pbuf \<Rightarrow> error + string"
    by (simp add: and_then_def)
  have 2: "and_then (if c then m else m') f = (if c then and_then m f else and_then m' f)"
    for c and m m' :: "error + pbuf" and f :: "pbuf \<Rightarrow> error + string"
    by simp
  show ?thesis
    unfolding print_file_def record_fields_def and_then_assoc
    by (simp add: and_then_def split: sum.splits)
qed

text \<open>The name, the type symbol and the terminating NUL: what fits is stored, the rest is
  dropped.\<close>

lemma name_symbol_nul_cut:
  "out (print_char (if Fflag flag then print_type_symbol (print_name s nm flag) st flag
                    else print_name s nm flag) NUL)
     = out s @ take (remain s)
                 (rendered_name nm flag @ (if Fflag flag then type_symbol st flag else []) @ [NUL])"
proof -
  let ?pc = "\<lambda>c s. print_char s c"
  let ?ys = "rendered_name nm flag @ (if Fflag flag then type_symbol st flag else []) @ [NUL]"
  have "print_char (if Fflag flag then print_type_symbol (print_name s nm flag) st flag
                    else print_name s nm flag) NUL = fold ?pc ?ys s"
    by (simp add: print_name_fold print_type_symbol_fold)
  then show ?thesis by (simp only: fold_print_char) simp
qed

text \<open>The errors of the steps of \<open>print_file\<close>.\<close>

lemma snprintf_advance_error: "snprintf_advance s cs = Inl er \<Longrightarrow> er = MemoryOverrun"
  by (auto simp: snprintf_advance_def Let_def split: if_splits)

lemma print_size_dec_error: "print_size_dec s k = Inl er \<Longrightarrow> er = MemoryOverrun"
  unfolding print_size_dec_def by (rule snprintf_advance_error)

lemma print_size_kilo_error: "print_size_kilo s k = Inl er \<Longrightarrow> er = MemoryOverrun"
  unfolding print_size_kilo_def Let_def by (rule print_size_dec_error)

lemma print_size_human_error: "print_size_human s k = Inl er \<Longrightarrow> er = MemoryOverrun"
  by (auto simp: print_size_human_def Let_def split: prod.splits sum.splits
      dest: snprintf_advance_error)

lemma ulong_of_double_error: "ulong_of_double x = Inl er \<Longrightarrow> er = UndefinedConversion"
  by (auto simp: ulong_of_double_def split: if_splits)

lemma blkcnt_t_to_blocks_error:
  "blkcnt_t_to_blocks e b = Inl er \<Longrightarrow> er = UndefinedConversion"
  by (auto simp: blkcnt_t_to_blocks_def Let_def split: sum.splits if_splits
      dest: ulong_of_double_error)

lemma print_blks_error:
  "print_blks s b flag e = Inl er \<Longrightarrow> er \<in> {MemoryOverrun, UndefinedConversion}"
  by (auto simp: print_blks_def Let_def split: if_splits sum.splits
      dest: print_size_dec_error print_size_kilo_error print_size_human_error
        blkcnt_t_to_blocks_error)

lemma print_owner_error: "print_owner s st flag e = Inl er \<Longrightarrow> er = MemoryOverrun"
  by (auto simp: print_owner_def split: option.splits if_splits dest: print_size_dec_error)

lemma print_group_error: "print_group s st flag e = Inl er \<Longrightarrow> er = MemoryOverrun"
  by (auto simp: print_group_def split: option.splits if_splits dest: print_size_dec_error)

lemma print_size_error: "print_size s st flag = Inl er \<Longrightarrow> er = MemoryOverrun"
  by (auto simp: print_size_def Let_def split: if_splits sum.splits
      dest: print_size_dec_error print_size_kilo_error print_size_human_error)

lemma print_time_error:
  "print_time s st flag e = Inl er \<Longrightarrow>
   er \<in> {TimeError, LocaltimeError, StrftimeError, MemoryOverrun}"
  by (auto simp: print_time_def Let_def split: option.splits if_splits
      dest: snprintf_advance_error)

lemma full_path_error: "full_path dir nm = Inl er \<Longrightarrow> er \<in> {PathTooLong, MemoryOverrun}"
  by (auto simp: full_path_def Let_def split: if_splits)

lemma print_link_error:
  "print_link s dir nm st flag e = Inl er \<Longrightarrow>
   er \<in> {PathTooLong, ReadlinkError, SymlinkGrew, UninitializedRead, MemoryOverrun}"
  by (auto simp: print_link_def Let_def split: sum.splits option.splits if_splits
      dest: snprintf_advance_error full_path_error)

lemma print_long_error:
  assumes "print_long s st flag e = Inl er"
  shows "(remain s < 12 \<and> er = BufferTooSmallForMode)
         \<or> (12 \<le> remain s \<and> er \<in> {TimeError, LocaltimeError, StrftimeError, MemoryOverrun})"
proof (cases "remain s < 12")
  case True
  with assms show ?thesis by (simp add: print_long_def)
next
  case False
  let ?s0 = "s\<lparr>out := out s @ take 10 (strmode (st_mode st)), remain := remain s - 10\<rparr>"
  from False assms have chain: "and_then (print_linkc (print_delim ?s0) st) (\<lambda>s.
        and_then (print_owner (print_delim s) st flag e) (\<lambda>s.
        and_then (print_group (print_delim s) st flag e) (\<lambda>s.
        and_then (print_size (print_delim s) st flag) (\<lambda>s.
        and_then (print_time (print_delim s) st flag e) (\<lambda>s.
        Inr (print_delim s)))))) = Inl er"
    by (simp add: print_long_def)
  have "er \<in> {TimeError, LocaltimeError, StrftimeError, MemoryOverrun}"
    using chain
    by (auto dest!: and_then_Inl
        dest: print_size_dec_error [unfolded print_size_dec_def, folded print_size_dec_def]
          print_owner_error print_group_error print_size_error print_time_error
        simp: print_linkc_def dest: print_size_dec_error)
  with False show ?thesis by simp
qed

lemma print_long_too_small_iff:
  "print_long s st flag e = Inl BufferTooSmallForMode \<longleftrightarrow> remain s < 12"
proof
  assume "print_long s st flag e = Inl BufferTooSmallForMode"
  from print_long_error [OF this] show "remain s < 12" by auto
next
  assume "remain s < 12"
  then show "print_long s st flag e = Inl BufferTooSmallForMode" by (simp add: print_long_def)
qed

text \<open>The fields before the long format do not depend on the flags \<open>l\<close> and \<open>n\<close>.\<close>

lemma record_fields_long:
  "lflag flag \<or> nflag flag \<Longrightarrow>
   record_fields n st flag e
     = and_then (record_fields n st (flag\<lparr>lflag := False, nflag := False\<rparr>) e)
         (\<lambda>s. print_long s st flag e)"
proof -
  assume l: "lflag flag \<or> nflag flag"
  have b: "print_blks s b (flag\<lparr>lflag := False, nflag := False\<rparr>) e = print_blks s b flag e" for s b
    by (simp add: print_blks_def)
  show ?thesis
    using l unfolding record_fields_def and_then_assoc
    by (auto simp: and_then_def b split: sum.splits)
qed

lemma record_fields_short_error:
  assumes "\<not> lflag flag" "\<not> nflag flag" and "record_fields n st flag e = Inl er"
  shows "er \<in> {MemoryOverrun, UndefinedConversion}"
  using assms(3) unfolding record_fields_def
  by (auto simp: assms(1,2) print_inode_def dest!: and_then_Inl
      dest: print_size_dec_error print_blks_error split: if_splits)

lemma record_fields_error:
  assumes "record_fields n st flag e = Inl er"
  shows "er \<in> {BufferTooSmallForMode, TimeError, LocaltimeError, StrftimeError, MemoryOverrun,
                UndefinedConversion}
         \<and> (er = BufferTooSmallForMode \<longrightarrow>
              (lflag flag \<or> nflag flag)
              \<and> (\<exists>s2. record_fields n st (flag\<lparr>lflag := False, nflag := False\<rparr>) e = Inr s2
                       \<and> remain s2 < 12))"
proof (cases "lflag flag \<or> nflag flag")
  case False
  with record_fields_short_error [OF _ _ assms] show ?thesis by auto
next
  case True
  let ?fl = "flag\<lparr>lflag := False, nflag := False\<rparr>"
  from assms have "and_then (record_fields n st ?fl e) (\<lambda>s. print_long s st flag e) = Inl er"
    by (simp only: record_fields_long [OF True])
  from and_then_Inl [OF this] show ?thesis
  proof
    assume "record_fields n st ?fl e = Inl er"
    from record_fields_short_error [OF _ _ this] show ?thesis by auto
  next
    assume "\<exists>s2. record_fields n st ?fl e = Inr s2 \<and> print_long s2 st flag e = Inl er"
    then obtain s2 where s2: "record_fields n st ?fl e = Inr s2"
      and pl: "print_long s2 st flag e = Inl er" by blast
    from print_long_error [OF pl] s2 True show ?thesis by auto
  qed
qed

lemma print_file_error:
  assumes disp: "dflag flag \<or> display_file dir nm flag"
    and err: "print_file n dir nm st flag e = Inl er"
  shows "record_fields n st flag e = Inl er
         \<or> ((lflag flag \<or> nflag flag) \<and> S_ISLNK (st_mode st)
             \<and> er \<in> {PathTooLong, ReadlinkError, SymlinkGrew, UninitializedRead, MemoryOverrun})"
proof -
  from disp have nd: "(\<not> dflag flag \<and> \<not> display_file dir nm flag) = False" by simp
  let ?rest = "\<lambda>s. and_then (if (lflag flag \<or> nflag flag) \<and> S_ISLNK (st_mode st)
                       then print_link (if Fflag flag
                                        then print_type_symbol (print_name s nm flag) st flag
                                        else print_name s nm flag) dir nm st flag e
                       else Inr (if Fflag flag
                                 then print_type_symbol (print_name s nm flag) st flag
                                 else print_name s nm flag))
               (\<lambda>s. Inr (out (print_char s NUL)))"
  from err have "and_then (record_fields n st flag e) ?rest = Inl er"
    unfolding print_file_fields nd if_False .
  from and_then_Inl [OF this] show ?thesis
  proof
    assume "record_fields n st flag e = Inl er"
    then show ?thesis by simp
  next
    assume "\<exists>s. record_fields n st flag e = Inr s \<and> ?rest s = Inl er"
    then obtain s where r: "?rest s = Inl er" by blast
    show ?thesis
    proof (cases "(lflag flag \<or> nflag flag) \<and> S_ISLNK (st_mode st)")
      case True
      from r have "and_then (print_link (if Fflag flag
                                        then print_type_symbol (print_name s nm flag) st flag
                                        else print_name s nm flag) dir nm st flag e)
               (\<lambda>s. Inr (out (print_char s NUL))) = Inl er"
        unfolding if_P [OF True] .
      from and_then_Inl [OF this] have "print_link (if Fflag flag
                                        then print_type_symbol (print_name s nm flag) st flag
                                        else print_name s nm flag) dir nm st flag e = Inl er"
        by auto
      from print_link_error [OF this] True show ?thesis by simp
    next
      case False
      with r show ?thesis by (simp add: and_then_def)
    qed
  qed
qed

lemma print_file_cut:
  assumes "dflag flag \<or> display_file dir nm flag"
    and "record_fields n st flag e = Inr s"
    and "\<not> ((lflag flag \<or> nflag flag) \<and> S_ISLNK (st_mode st))"
  shows "print_file n dir nm st flag e
           = Inr (out s @ take (remain s)
                    (rendered_name nm flag
                       @ (if Fflag flag then type_symbol st flag else []) @ [NUL]))"
proof -
  from assms(1) have nd: "(\<not> dflag flag \<and> \<not> display_file dir nm flag) = False" by simp
  from assms(3) have nl: "((lflag flag \<or> nflag flag) \<and> S_ISLNK (st_mode st)) = False" by simp
  show ?thesis
    unfolding print_file_fields nd nl if_False assms(2)
    by (simp add: and_then_def name_symbol_nul_cut)
qed

lemma rendered_name_plain:
  "\<not> qflag flag \<Longrightarrow> rendered_name nm flag = c_string nm"
  by (simp add: rendered_name_def)

lemma dec_0: "dec 0 = ''0''"
  by (simp add: dec_small digit_char_def)

lemma dec_Suc_0: "dec (Suc 0) = ''1''"
  by (simp add: dec_small digit_char_def)

lemma strmode_regular: "take 10 (strmode (st_mode regular_stat)) = ''-rw-r--r--''"
  by (simp add: regular_stat_def strmode_def S_IFMT_def S_IFDIR_def S_IFCHR_def S_IFBLK_def
      S_IFREG_def S_IFLNK_def S_IFSOCK_def S_IFIFO_def S_IFWHT_def S_IRUSR_def S_IWUSR_def
      S_IXUSR_def S_IRGRP_def S_IWGRP_def S_IXGRP_def S_IROTH_def S_IWOTH_def S_IXOTH_def
      S_ISUID_def S_ISGID_def S_ISVTX_def)

text \<open>The long format of a regular file whose owner has a name of \<open>k\<close> bytes, in a buffer
  that holds all of it.\<close>

lemma long_fields_owner:
  assumes c: "c \<noteq> NUL" and fit: "k + 31 < n"
    and fl: "\<not> nflag flag" "\<not> hflag flag" "\<not> kflag flag" "\<not> cflag flag" "\<not> uflag flag"
      "\<not> iflag flag" "\<not> sflag flag" "lflag flag"
    and q: "\<not> qflag flag"
    and ev: "sys_getpwuid e = (\<lambda>uid. Some (replicate k c))" "sys_getgrgid e = (\<lambda>gid. None)"
      "sys_time e = Some 0" "sys_strftime e = (\<lambda>fmt t. Some ''Jan 01 00:00'')"
  shows "record_fields n regular_stat flag e
         = Inr \<lparr>out = ''-rw-r--r--'' @ [DELIMITER] @ ''1'' @ [DELIMITER]
                   @ replicate k c @ [DELIMITER] @ ''0'' @ [DELIMITER] @ ''0'' @ [DELIMITER]
                   @ ''Jan 01 00:00'' @ [DELIMITER],
               remain = n - (k + 31)\<rparr>"
proof -
  let ?m = "''-rw-r--r--''"
  let ?s1 = "\<lparr>out = ?m @ [DELIMITER], remain = n - 11\<rparr>"
  let ?s2 = "\<lparr>out = ?m @ [DELIMITER] @ ''1'' @ [DELIMITER], remain = n - 13\<rparr>"
  let ?s3 = "\<lparr>out = ?m @ [DELIMITER] @ ''1'' @ [DELIMITER] @ replicate k c @ [DELIMITER],
              remain = n - (k + 14)\<rparr>"
  let ?s4 = "\<lparr>out = ?m @ [DELIMITER] @ ''1'' @ [DELIMITER] @ replicate k c @ [DELIMITER]
                  @ ''0'' @ [DELIMITER], remain = n - (k + 16)\<rparr>"
  let ?s5 = "\<lparr>out = ?m @ [DELIMITER] @ ''1'' @ [DELIMITER] @ replicate k c @ [DELIMITER]
                  @ ''0'' @ [DELIMITER] @ ''0'' @ [DELIMITER], remain = n - (k + 18)\<rparr>"
  let ?s6 = "\<lparr>out = ?m @ [DELIMITER] @ ''1'' @ [DELIMITER] @ replicate k c @ [DELIMITER]
                  @ ''0'' @ [DELIMITER] @ ''0'' @ [DELIMITER] @ ''Jan 01 00:00'' @ [DELIMITER],
              remain = n - (k + 31)\<rparr>"
  have rn: "rendered_name (replicate k c) flag = replicate k c"
    by (simp add: rendered_name_plain [OF q] c_string_replicate [OF c])
  have a1: "print_delim (\<lparr>out = [], remain = n\<rparr>
              \<lparr>out := out \<lparr>out = [], remain = n\<rparr> @ take 10 (strmode (st_mode regular_stat)),
               remain := remain \<lparr>out = [], remain = n\<rparr> - 10\<rparr>) = ?s1"
    using fit by (simp add: strmode_regular print_delim_def print_char_def)
  let ?t2 = "\<lparr>out = ?m @ [DELIMITER] @ ''1'', remain = n - 12\<rparr>"
  let ?t3 = "\<lparr>out = ?m @ [DELIMITER] @ ''1'' @ [DELIMITER] @ replicate k c,
              remain = n - (k + 13)\<rparr>"
  let ?t4 = "\<lparr>out = ?m @ [DELIMITER] @ ''1'' @ [DELIMITER] @ replicate k c @ [DELIMITER]
                  @ ''0'', remain = n - (k + 15)\<rparr>"
  let ?t5 = "\<lparr>out = ?m @ [DELIMITER] @ ''1'' @ [DELIMITER] @ replicate k c @ [DELIMITER]
                  @ ''0'' @ [DELIMITER] @ ''0'', remain = n - (k + 17)\<rparr>"
  let ?t6 = "\<lparr>out = ?m @ [DELIMITER] @ ''1'' @ [DELIMITER] @ replicate k c @ [DELIMITER]
                  @ ''0'' @ [DELIMITER] @ ''0'' @ [DELIMITER] @ ''Jan 01 00:00'',
              remain = n - (k + 30)\<rparr>"
  have a2: "print_linkc ?s1 regular_stat = Inr ?t2"
    using fit
    by (simp add: print_linkc_def print_size_dec_def regular_stat_def dec_Suc_0
        snprintf_advance_fits; arith)
  have d2: "print_delim ?t2 = ?s2"
    using fit by (simp add: print_delim_def print_char_def; arith)
  have a3: "print_owner ?s2 regular_stat flag e = Inr ?t3"
    using fit by (simp add: print_owner_def fl ev print_name_cut rn; arith)
  have d3: "print_delim ?t3 = ?s3"
    using fit by (simp add: print_delim_def print_char_def; arith)
  have a4: "print_group ?s3 regular_stat flag e = Inr ?t4"
    using fit
    by (simp add: print_group_def fl ev regular_stat_def print_size_dec_def dec_0
        snprintf_advance_fits; arith)
  have d4: "print_delim ?t4 = ?s4"
    using fit by (simp add: print_delim_def print_char_def; arith)
  have a5: "print_size ?s4 regular_stat flag = Inr ?t5"
    using fit
    by (simp add: print_size_def fl regular_stat_def S_ISBLK_def S_ISCHR_def
        S_IFMT_def S_IFBLK_def S_IFCHR_def print_size_dec_def dec_0 snprintf_advance_fits;
        arith)
  have d5: "print_delim ?t5 = ?s5"
    using fit by (simp add: print_delim_def print_char_def; arith)
  have a6: "print_time ?s5 regular_stat flag e = Inr ?t6"
    using fit
    by (simp add: print_time_def fl ev regular_stat_def c_string_def
        NUL_def snprintf_advance_fits; arith)
  have d6: "print_delim ?t6 = ?s6"
    using fit by (simp add: print_delim_def print_char_def; arith)
  have r: "and_then (Inr s) f = f s" for s :: pbuf and f :: "pbuf \<Rightarrow> error + pbuf"
    by (simp add: and_then_def)
  have big: "\<not> n < 12" using fit by simp
  have "print_long \<lparr>out = [], remain = n\<rparr> regular_stat flag e = Inr ?s6"
    unfolding print_long_def a1
    by (simp only: pbuf.select_convs big if_False a2 r d2 a3 d3 a4 d4 a5 d5 a6 d6)
  then show ?thesis
    by (simp add: record_fields_def fl and_then_def)
qed

lemma long_owner_record_fields:
  assumes fl: "\<not> nflag flag" "\<not> hflag flag" "\<not> kflag flag" "\<not> cflag flag" "\<not> uflag flag"
      "\<not> iflag flag" "\<not> sflag flag" "lflag flag" and q: "\<not> qflag flag"
  shows "record_fields LINE_SIZE regular_stat flag long_owner_env
           = Inr \<lparr>out = long_owner_fields, remain = 231\<rparr>"
proof -
  have u: "CHR ''u'' \<noteq> NUL" by (simp add: NUL_def)
  have fit: "250 + 31 < LINE_SIZE" by (simp add: LINE_SIZE_def)
  have ev: "sys_getpwuid long_owner_env = (\<lambda>uid. Some (replicate 250 (CHR ''u'')))"
    "sys_getgrgid long_owner_env = (\<lambda>gid. None)"
    "sys_time long_owner_env = Some 0"
    "sys_strftime long_owner_env = (\<lambda>fmt t. Some ''Jan 01 00:00'')"
    by (simp_all add: long_owner_env_def sample_env_def)
  have r: "LINE_SIZE - (250 + 31) = 231" by (simp add: LINE_SIZE_def)
  from long_fields_owner [OF u fit fl q ev] show ?thesis
    unfolding long_owner_fields_def r .
qed

lemma length_long_owner_fields: "length long_owner_fields = 281"
  by (simp add: long_owner_fields_def)

lemma long_name_facts:
  "strlen long_name = 255" "\<not> qflag flag \<Longrightarrow> rendered_name long_name flag = replicate 255 (CHR ''a'')"
  "display_file dir long_name flag"
proof -
  have a: "CHR ''a'' \<noteq> NUL" "CHR ''a'' \<noteq> CHR ''.''" by (simp_all add: NUL_def)
  show "strlen long_name = 255"
    by (simp add: strlen_def long_name_def c_string_replicate [OF a(1)])
  show "\<not> qflag flag \<Longrightarrow> rendered_name long_name flag = replicate 255 (CHR ''a'')"
    by (simp add: rendered_name_plain long_name_def c_string_replicate [OF a(1)])
  show "display_file dir long_name flag"
    unfolding long_name_def by (rule display_file_replicate [OF a])
qed

lemma long_owner_record:
  assumes fl: "\<not> nflag flag" "\<not> hflag flag" "\<not> kflag flag" "\<not> cflag flag" "\<not> uflag flag"
      "\<not> iflag flag" "\<not> sflag flag" "lflag flag" and q: "\<not> qflag flag"
  shows "out \<lparr>out = long_owner_fields, remain = 231\<rparr>
           @ take (remain \<lparr>out = long_owner_fields, remain = 231\<rparr>)
               (rendered_name long_name flag
                  @ (if Fflag flag then type_symbol regular_stat flag else []) @ [NUL])
         = long_owner_fields @ replicate 231 (CHR ''a'')"
proof -
  have "take 231 (replicate 255 (CHR ''a'') @ xs) = replicate 231 (CHR ''a'')" for xs
    by (rule take_replicate_append) simp
  then show ?thesis by (simp add: long_name_facts(2) [OF q])
qed

text \<open>
  Claim C4, as the code has it. \<open>print_file\<close> has no error for a record that does not fit
  the buffer. The name, the type symbol and the terminating NUL are stored byte by byte by
  \<open>print_char\<close>, which stores a byte while room is left and drops it otherwise: once the
  fields before the name are stored and no link target follows, the result is those fields
  and as much of name, symbol and NUL as the rest of the buffer holds, whatever the length
  of the name. The one check of the room is that of \<open>print_long\<close>: \<open>print_file\<close> stops
  with \<open>buffer too small to fit mode\<close> exactly when the long format is asked for and fewer
  than 12 bytes are left after the inode number and the blocks. Every other error of
  \<open>print_file\<close> is a failed call of the system (time, link), a block count that no
  \<open>unsigned long\<close> holds, or marks the cursor of \<open>snprintf\<close> leaving the buffer, which the
  code does not notice.
\<close>

theorem record_text_cut_silently:
  assumes disp: "dflag flag \<or> display_file dir nm flag"
  shows "(record_fields n st flag e = Inr s
            \<and> \<not> ((lflag flag \<or> nflag flag) \<and> S_ISLNK (st_mode st)) \<longrightarrow>
          print_file n dir nm st flag e
            = Inr (out s @ take (remain s)
                     (rendered_name nm flag
                        @ (if Fflag flag then type_symbol st flag else []) @ [NUL])))
       \<and> (print_file n dir nm st flag e = Inl BufferTooSmallForMode \<longleftrightarrow>
            (lflag flag \<or> nflag flag)
            \<and> (\<exists>s2. record_fields n st (flag\<lparr>lflag := False, nflag := False\<rparr>) e = Inr s2
                     \<and> remain s2 < 12))
       \<and> (print_file n dir nm st flag e = Inl er \<longrightarrow>
            er \<in> {BufferTooSmallForMode, TimeError, LocaltimeError, StrftimeError,
                  PathTooLong, ReadlinkError, SymlinkGrew, UninitializedRead, MemoryOverrun,
                  UndefinedConversion})"
proof (intro conjI impI)
  from disp have nd: "(\<not> dflag flag \<and> \<not> display_file dir nm flag) = False" by simp
  {
    assume a: "record_fields n st flag e = Inr s
            \<and> \<not> ((lflag flag \<or> nflag flag) \<and> S_ISLNK (st_mode st))"
    then have nl: "((lflag flag \<or> nflag flag) \<and> S_ISLNK (st_mode st)) = False" by simp
    from a have rf: "record_fields n st flag e = Inr s" by simp
    show "print_file n dir nm st flag e
            = Inr (out s @ take (remain s)
                     (rendered_name nm flag
                        @ (if Fflag flag then type_symbol st flag else []) @ [NUL]))"
      unfolding print_file_fields nd nl if_False rf
      by (simp add: and_then_def name_symbol_nul_cut)
  }
  show "print_file n dir nm st flag e = Inl BufferTooSmallForMode \<longleftrightarrow>
            (lflag flag \<or> nflag flag)
            \<and> (\<exists>s2. record_fields n st (flag\<lparr>lflag := False, nflag := False\<rparr>) e = Inr s2
                     \<and> remain s2 < 12)"
  proof
    assume "print_file n dir nm st flag e = Inl BufferTooSmallForMode"
    from print_file_error [OF disp this]
    have "record_fields n st flag e = Inl BufferTooSmallForMode" by simp
    from record_fields_error [OF this]
    show "(lflag flag \<or> nflag flag)
            \<and> (\<exists>s2. record_fields n st (flag\<lparr>lflag := False, nflag := False\<rparr>) e = Inr s2
                     \<and> remain s2 < 12)" by simp
  next
    assume r: "(lflag flag \<or> nflag flag)
            \<and> (\<exists>s2. record_fields n st (flag\<lparr>lflag := False, nflag := False\<rparr>) e = Inr s2
                     \<and> remain s2 < 12)"
    then obtain s2 where l: "lflag flag \<or> nflag flag"
      and s2: "record_fields n st (flag\<lparr>lflag := False, nflag := False\<rparr>) e = Inr s2"
      and small: "remain s2 < 12" by blast
    have "record_fields n st flag e = Inl BufferTooSmallForMode"
      unfolding record_fields_long [OF l] s2
      using print_long_too_small [OF small] by (simp add: and_then_def)
    then show "print_file n dir nm st flag e = Inl BufferTooSmallForMode"
      unfolding print_file_fields nd if_False by (simp add: and_then_def)
  qed
  {
    assume "print_file n dir nm st flag e = Inl er"
    from print_file_error [OF disp this] record_fields_error [of n st flag e er]
    show "er \<in> {BufferTooSmallForMode, TimeError, LocaltimeError, StrftimeError,
                  PathTooLong, ReadlinkError, SymlinkGrew, UninitializedRead, MemoryOverrun,
                  UndefinedConversion}"
      by auto
  }
qed

theorem record_text_cut_silently_witness:
  "print_file LINE_SIZE [] long_name regular_stat (flags_init\<lparr>lflag := True, Fflag := True\<rparr>)
       long_owner_env
     = Inr (long_owner_fields @ replicate 231 (CHR ''a''))
   \<and> record_fields 8 regular_stat (flags_init\<lparr>lflag := False, nflag := False\<rparr>) sample_env
     = Inr \<lparr>out = [], remain = 8\<rparr>
   \<and> print_file 8 [] ''f'' regular_stat (flags_init\<lparr>lflag := True\<rparr>) sample_env
     = Inl BufferTooSmallForMode
   \<and> print_file 12 [] ''f'' regular_stat (flags_init\<lparr>lflag := True\<rparr>) sample_env
     \<noteq> Inl BufferTooSmallForMode"
proof -
  let ?fF = "flags_init\<lparr>lflag := True, Fflag := True\<rparr>"
  let ?fl = "flags_init\<lparr>lflag := True\<rparr>"
  let ?f0 = "flags_init\<lparr>lflag := False, nflag := False\<rparr>"
  have fF: "\<not> nflag ?fF" "\<not> hflag ?fF" "\<not> kflag ?fF" "\<not> cflag ?fF" "\<not> uflag ?fF"
    "\<not> iflag ?fF" "\<not> sflag ?fF" "lflag ?fF" "\<not> qflag ?fF"
    by (simp_all add: flags_init_def)
  have d1: "dflag ?fF \<or> display_file [] long_name ?fF"
    by (simp add: long_name_facts(3))
  have h1: "record_fields LINE_SIZE regular_stat ?fF long_owner_env
              = Inr \<lparr>out = long_owner_fields, remain = 231\<rparr>
            \<and> \<not> ((lflag ?fF \<or> nflag ?fF) \<and> S_ISLNK (st_mode regular_stat))"
    using long_owner_record_fields [OF fF]
    by (simp add: S_ISLNK_def regular_stat_def S_IFMT_def S_IFLNK_def)
  from record_text_cut_silently [OF d1, of LINE_SIZE regular_stat long_owner_env
      "\<lparr>out = long_owner_fields, remain = 231\<rparr>" TimeError] h1
  have "print_file LINE_SIZE [] long_name regular_stat ?fF long_owner_env
     = Inr (out \<lparr>out = long_owner_fields, remain = 231\<rparr>
           @ take (remain \<lparr>out = long_owner_fields, remain = 231\<rparr>)
               (rendered_name long_name ?fF
                  @ (if Fflag ?fF then type_symbol regular_stat ?fF else []) @ [NUL]))"
    by blast
  then have w1: "print_file LINE_SIZE [] long_name regular_stat ?fF long_owner_env
     = Inr (long_owner_fields @ replicate 231 (CHR ''a''))"
    unfolding long_owner_record [OF fF] .
  have d2: "dflag ?fl \<or> display_file [] ''f'' ?fl"
    by (simp add: display_file_def is_dot_dir_def is_hidden_file_def c_string_def NUL_def)
  have e: "?fl\<lparr>lflag := False, nflag := False\<rparr> = ?f0"
    by simp
  have r: "record_fields n regular_stat ?f0 sample_env = Inr \<lparr>out = [], remain = n\<rparr>" for n
    by (simp add: record_fields_def flags_init_def and_then_def)
  have l: "lflag ?fl \<or> nflag ?fl" by simp
  note t8 = record_text_cut_silently [OF d2, of 8 regular_stat sample_env
      "\<lparr>out = [], remain = 8\<rparr>" TimeError, unfolded e]
  from t8 l r [of 8]
  have w2: "print_file 8 [] ''f'' regular_stat ?fl sample_env = Inl BufferTooSmallForMode"
    by simp
  note t12 = record_text_cut_silently [OF d2, of 12 regular_stat sample_env
      "\<lparr>out = [], remain = 12\<rparr>" TimeError, unfolded e]
  from t12 r [of 12]
  have w3: "print_file 12 [] ''f'' regular_stat ?fl sample_env \<noteq> Inl BufferTooSmallForMode"
    by simp
  from w1 r [of 8] w2 w3 show ?thesis by (intro conjI)
qed

text \<open>
  Claim C4 as stated fails. With \<open>-l\<close>, a regular file whose name has 255 bytes and whose
  owner has a name of 250 bytes has a record of 537 bytes (281 bytes of fields, the name
  and the NUL), more than the \<open>LINE_SIZE\<close> bytes of the buffer. \<open>print_file\<close> reports no
  error: it returns the 512 bytes that fit, the fields and the first 231 bytes of the name.
\<close>

theorem record_too_long_counterexample:
  "strlen long_name \<le> NAME_MAX
   \<and> record_fields LINE_SIZE regular_stat (flags_init\<lparr>lflag := True\<rparr>) long_owner_env
       = Inr \<lparr>out = long_owner_fields, remain = 231\<rparr>
   \<and> LINE_SIZE < length (long_owner_fields
                          @ rendered_name long_name (flags_init\<lparr>lflag := True\<rparr>) @ [NUL])
   \<and> print_file LINE_SIZE [] long_name regular_stat (flags_init\<lparr>lflag := True\<rparr>) long_owner_env
       = Inr (long_owner_fields @ replicate 231 (CHR ''a''))"
proof -
  let ?fl = "flags_init\<lparr>lflag := True\<rparr>"
  have fl: "\<not> nflag ?fl" "\<not> hflag ?fl" "\<not> kflag ?fl" "\<not> cflag ?fl" "\<not> uflag ?fl"
    "\<not> iflag ?fl" "\<not> sflag ?fl" "lflag ?fl" "\<not> qflag ?fl"
    by (simp_all add: flags_init_def)
  have c1: "strlen long_name \<le> NAME_MAX"
    by (simp add: long_name_facts(1) NAME_MAX_def)
  have c2: "record_fields LINE_SIZE regular_stat ?fl long_owner_env
       = Inr \<lparr>out = long_owner_fields, remain = 231\<rparr>"
    by (rule long_owner_record_fields [OF fl])
  have c3: "LINE_SIZE < length (long_owner_fields @ rendered_name long_name ?fl @ [NUL])"
    by (simp add: length_long_owner_fields long_name_facts(2) [OF fl(9)] LINE_SIZE_def)
  have d: "dflag ?fl \<or> display_file [] long_name ?fl"
    by (simp add: long_name_facts(3))
  have nl: "\<not> ((lflag ?fl \<or> nflag ?fl) \<and> S_ISLNK (st_mode regular_stat))"
    by (simp add: S_ISLNK_def regular_stat_def S_IFMT_def S_IFLNK_def)
  have c4: "print_file LINE_SIZE [] long_name regular_stat ?fl long_owner_env
       = Inr (long_owner_fields @ replicate 231 (CHR ''a''))"
    using print_file_cut [OF d c2 nl] unfolding long_owner_record [OF fl] .
  from c1 c2 c3 c4 show ?thesis by (intro conjI)
qed

theorem type_symbol_follows_name_witness:
  "st_mode directory_stat AND S_IFMT = S_IFDIR
   \<and> type_symbol directory_stat (flags_init\<lparr>Fflag := True\<rparr>) = ''/''
   \<and> print_file LINE_SIZE [] ''dir'' directory_stat (flags_init\<lparr>Fflag := True\<rparr>) sample_env
       = Inr (''dir/'' @ [NUL])
   \<and> (\<exists>pre rest. ''dir/'' @ [NUL]
          = pre @ rendered_name ''dir'' (flags_init\<lparr>Fflag := True\<rparr>)
              @ type_symbol directory_stat (flags_init\<lparr>Fflag := True\<rparr>) @ rest
        \<and> (pre = [] \<or> last pre = DELIMITER)
        \<and> (rest = [NUL] \<or> (S_ISLNK (st_mode directory_stat) \<and> take 4 rest = '' -> '')))"
proof -
  let ?fl = "flags_init\<lparr>Fflag := True\<rparr>"
  have k: "st_mode directory_stat AND S_IFMT = S_IFDIR"
    by (simp add: directory_stat_def S_IFMT_def S_IFDIR_def)
  note inst = type_symbol_follows_name [where st = directory_stat and flag = ?fl
      and n = LINE_SIZE and dir = "[]" and nm = "''dir''" and e = sample_env
      and bytes = "''dir/'' @ [NUL]"]
  from inst k have ts: "type_symbol directory_stat ?fl = ''/''" by blast
  have rn: "rendered_name ''dir'' ?fl = ''dir''"
    by (simp add: rendered_name_def c_string_def NUL_def flags_init_def)
  have disp': "display_file [] ''dir'' ?fl"
    by (simp add: display_file_def is_dot_dir_def is_hidden_file_def c_string_def NUL_def)
  then have disp: "dflag ?fl \<or> display_file [] ''dir'' ?fl" ..
  have "print_file LINE_SIZE [] ''dir'' directory_stat ?fl sample_env
     = Inr (take LINE_SIZE (rendered_name ''dir'' ?fl
         @ (if Fflag ?fl then type_symbol directory_stat ?fl else []) @ [NUL]))"
    by (rule print_file_short) (simp_all add: disp', simp_all add: flags_init_def)
  then have pf: "print_file LINE_SIZE [] ''dir'' directory_stat ?fl sample_env
      = Inr (''dir/'' @ [NUL])"
    unfolding rn ts by (simp add: LINE_SIZE_def)
  have len: "length (''dir/'' @ [NUL]) < LINE_SIZE" by (simp add: LINE_SIZE_def)
  have F: "Fflag ?fl" by simp
  from inst pf len F disp
  have "\<exists>pre rest. ''dir/'' @ [NUL] = pre @ rendered_name ''dir'' ?fl
              @ type_symbol directory_stat ?fl @ rest
        \<and> (pre = [] \<or> last pre = DELIMITER)
        \<and> (rest = [NUL] \<or> (S_ISLNK (st_mode directory_stat) \<and> take 4 rest = '' -> ''))"
    by blast
  with k ts pf show ?thesis by blast
qed

lemma for_each_append:
  "for_each (xs @ ys) body s = (case for_each xs body s of Inl e \<Rightarrow> Inl e | Inr s' \<Rightarrow> for_each ys body s')"
  by (induction xs arbitrary: s) (auto split: sum.splits)

lemma init_max_per_col_record_widths: "init_max_per_col buf = Inr (record_widths buf)"
  by (simp add: init_max_per_col_fields record_widths_def)

lemma for_each_init:
  "for_each bufs (\<lambda>buf ws. and_then (init_max_per_col buf) (\<lambda>w. Inr (ws @ [w]))) acc
     = Inr (acc @ map record_widths bufs)"
  by (induction bufs arbitrary: acc)
    (simp_all add: init_max_per_col_record_widths and_then_def)

lemma fold_set_all:
  "k \<le> length mw \<Longrightarrow> fold (\<lambda>j mw. mw[j := v]) [0..<k] mw = replicate k v @ drop k mw"
proof (induction k)
  case 0
  then show ?case by simp
next
  case (Suc k)
  then have "fold (\<lambda>j mw. mw[j := v]) [0..<Suc k] mw = (replicate k v @ drop k mw)[k := v]"
    by simp
  also have "\<dots> = replicate k v @ (drop k mw)[0 := v]"
    by (simp add: list_update_append)
  also have "(drop k mw)[0 := v] = v # drop (Suc k) mw"
    using Suc.prems by (simp flip: Cons_nth_drop_Suc)
  finally show ?case by (simp add: replicate_append_same)
qed

text \<open>A list of trackers for \<open>n\<close> entries of \<open>f\<close> fields each.\<close>

lemma reset_widths_wf:
  assumes "\<forall>t\<in>set mcw. cols t = f \<and> length (max_width t) = f"
  shows "reset_widths mcw = replicate (length mcw) \<lparr>max_width = replicate f 1, cols = f\<rparr>"
proof -
  have "t\<lparr>max_width := fold (\<lambda>j mw. mw[j := 1]) [0..<cols t] (max_width t)\<rparr>
      = \<lparr>max_width = replicate f 1, cols = f\<rparr>" if "t \<in> set mcw" for t
    using that assms fold_set_all [of "cols t" "max_width t" 1] by (cases t) auto
  then have "reset_widths mcw = map (\<lambda>t. \<lparr>max_width = replicate f 1, cols = f\<rparr>) mcw"
    unfolding reset_widths_def by (intro map_cong) simp_all
  then show ?thesis by (simp add: map_replicate_const)
qed

lemma assign_widths_loop:
  assumes idx: "\<forall>i\<in>set is. i < length bufs \<and> grid_column flag col row i < length mcw"
    and wf: "\<forall>t\<in>set mcw. cols t = f \<and> length (max_width t) = f"
    and recs: "\<forall>b\<in>set bufs. length (split_fields (c_string b)) = f"
  shows "\<exists>R. for_each is
           (\<lambda>i mcw.
              let coli = (if Cflag flag then i div row else i mod col)
              in if \<not> coli < length mcw then Inl MemoryOverrun
                 else case set_max (mcw ! coli) (map record_widths bufs ! i) of
                        Inl e \<Rightarrow> Inl e
                      | Inr t \<Rightarrow> Inr (mcw[coli := t]))
           mcw = Inr R
         \<and> length R = length mcw
         \<and> (\<forall>c<length mcw. cols (R ! c) = f \<and> length (max_width (R ! c)) = f
               \<and> (\<forall>j<f. max_width (R ! c) ! j
                     = fold max
                         (map (\<lambda>i. length (split_fields (c_string (bufs ! i)) ! j))
                            (filter (\<lambda>i. grid_column flag col row i = c) is))
                         (max_width (mcw ! c) ! j)))"
  using idx wf
proof (induction "is" arbitrary: mcw)
  case Nil
  then show ?case by simp
next
  case (Cons i "is")
  let ?body = "\<lambda>i mcw.
              let coli = (if Cflag flag then i div row else i mod col)
              in if \<not> coli < length mcw then Inl MemoryOverrun
                 else case set_max (mcw ! coli) (map record_widths bufs ! i) of
                        Inl e \<Rightarrow> Inl e
                      | Inr t \<Rightarrow> Inr (mcw[coli := t])"
  let ?c = "grid_column flag col row i"
  let ?g = "\<lambda>j i. length (split_fields (c_string (bufs ! i)) ! j)"
  from Cons.prems have i: "i < length bufs" and c: "?c < length mcw" by simp_all
  from i recs have fi: "length (split_fields (c_string (bufs ! i))) = f" by simp
  have ew: "map record_widths bufs ! i = record_widths (bufs ! i)" using i by simp
  have wfc: "cols (mcw ! ?c) = f" "length (max_width (mcw ! ?c)) = f"
    using Cons.prems(2) c by simp_all
  from set_max_matching [of "mcw ! ?c" "record_widths (bufs ! i)"] wfc fi
  obtain mw' where sm: "set_max (mcw ! ?c) (record_widths (bufs ! i)) = Inr ((mcw ! ?c)\<lparr>max_width := mw'\<rparr>)"
    and len': "length mw' = f"
    and nth': "\<forall>j<f. mw' ! j = max (max_width (mcw ! ?c) ! j) (?g j i)"
    by (auto simp: record_widths_def)
  let ?t = "(mcw ! ?c)\<lparr>max_width := mw'\<rparr>"
  let ?mcw1 = "mcw[?c := ?t]"
  have step: "?body i mcw = Inr ?mcw1"
    using c sm ew by (simp add: grid_column_def Let_def)
  have wf1: "\<forall>t\<in>set ?mcw1. cols t = f \<and> length (max_width t) = f"
  proof
    fix t assume "t \<in> set ?mcw1"
    then have "t = ?t \<or> t \<in> set mcw" by (auto dest: set_update_subset_insert [THEN subsetD])
    with Cons.prems(2) wfc len' show "cols t = f \<and> length (max_width t) = f" by auto
  qed
  have idx1: "\<forall>i\<in>set is. i < length bufs \<and> grid_column flag col row i < length ?mcw1"
    using Cons.prems(1) by simp
  from Cons.IH [OF idx1 wf1] obtain R where R: "for_each is ?body ?mcw1 = Inr R"
    and lenR: "length R = length ?mcw1"
    and nthR: "\<forall>c<length ?mcw1. cols (R ! c) = f \<and> length (max_width (R ! c)) = f
               \<and> (\<forall>j<f. max_width (R ! c) ! j
                     = fold max (map (?g j) (filter (\<lambda>i. grid_column flag col row i = c) is))
                         (max_width (?mcw1 ! c) ! j))"
    by blast
  have run: "for_each (i # is) ?body mcw = Inr R"
    using step R by simp
  have "max_width (R ! c') ! j
          = fold max (map (?g j) (filter (\<lambda>i. grid_column flag col row i = c') (i # is)))
              (max_width (mcw ! c') ! j)"
    if c': "c' < length mcw" and j: "j < f" for c' j
  proof (cases "c' = ?c")
    case True
    with nthR c' j have "max_width (R ! c') ! j
        = fold max (map (?g j) (filter (\<lambda>i. grid_column flag col row i = c') is)) (mw' ! j)"
      by simp
    with True nth' j show ?thesis by (simp add: max.commute)
  next
    case False
    with nthR c' j have "max_width (R ! c') ! j
        = fold max (map (?g j) (filter (\<lambda>i. grid_column flag col row i = c') is))
            (max_width (mcw ! c') ! j)"
      by simp
    with False show ?thesis by auto
  qed
  with run lenR nthR show ?case by auto
qed

lemma grid_column_le: "grid_column flag col row i \<le> i"
  by (simp add: grid_column_def div_le_dividend)

lemma assign_widths_reset:
  assumes len: "length mcw = length bufs"
    and wf: "\<forall>t\<in>set mcw. cols t = f \<and> length (max_width t) = f"
    and recs: "\<forall>b\<in>set bufs. length (split_fields (c_string b)) = f"
  shows "assign_widths flag col row (map record_widths bufs) (reset_widths mcw)
           = Inr (grid_widths flag f col row bufs)"
proof -
  let ?n = "length bufs"
  let ?one = "\<lparr>max_width = replicate f 1, cols = f\<rparr>"
  let ?m0 = "replicate ?n ?one"
  have reset: "reset_widths mcw = ?m0"
    using reset_widths_wf [OF wf] len by simp
  have idx: "\<forall>i\<in>set [0..<?n]. i < length bufs \<and> grid_column flag col row i < length ?m0"
  proof
    fix i assume "i \<in> set [0..<?n]"
    then have "i < ?n" by simp
    moreover have "grid_column flag col row i \<le> i" by (rule grid_column_le)
    ultimately show "i < length bufs \<and> grid_column flag col row i < length ?m0" by simp
  qed
  have wf0: "\<forall>t\<in>set ?m0. cols t = f \<and> length (max_width t) = f" by simp
  from assign_widths_loop [OF idx wf0 recs] obtain R
    where R: "assign_widths flag col row (map record_widths bufs) ?m0 = Inr R"
      and lenR: "length R = ?n"
      and nthR: "\<forall>c<?n. cols (R ! c) = f \<and> length (max_width (R ! c)) = f
               \<and> (\<forall>j<f. max_width (R ! c) ! j
                     = fold max
                         (map (\<lambda>i. length (split_fields (c_string (bufs ! i)) ! j))
                            (filter (\<lambda>i. grid_column flag col row i = c) [0..<?n]))
                         (max_width (?m0 ! c) ! j))"
    unfolding assign_widths_def by auto
  have "R = grid_widths flag f col row bufs"
  proof (rule nth_equalityI)
    show "length R = length (grid_widths flag f col row bufs)"
      using lenR by (simp add: grid_widths_def)
  next
    fix c assume "c < length R"
    with lenR have c: "c < ?n" by simp
    with nthR have cl: "cols (R ! c) = f" and ln: "length (max_width (R ! c)) = f"
      and nth: "\<forall>j<f. max_width (R ! c) ! j = column_width flag col row bufs c j"
      by (simp_all add: column_width_def)
    have "max_width (R ! c) = map (column_width flag col row bufs c) [0..<f]"
      using ln nth by (intro nth_equalityI) simp_all
    with cl c show "R ! c = grid_widths flag f col row bufs ! c"
      by (cases "R ! c") (simp add: grid_widths_def)
  qed
  with R reset show ?thesis by simp
qed

lemma div_up_le: "0 < d \<Longrightarrow> 0 < n \<Longrightarrow> div_up n d \<le> n"
proof -
  assume d: "0 < d" and n: "0 < n"
  show ?thesis
  proof (cases "n mod d = 0")
    case True
    then show ?thesis by (simp add: div_up_def div_le_dividend)
  next
    case False
    have "n div d * d + n mod d = n" by simp
    with False have "n div d * d < n" by linarith
    moreover have "n div d \<le> n div d * d" using d by simp
    ultimately have "n div d < n" by linarith
    with False show ?thesis by (simp add: div_up_def)
  qed
qed

lemma div_up_pos: "0 < d \<Longrightarrow> 0 < n \<Longrightarrow> 0 < div_up n d"
  by (cases "n mod d = 0") (auto simp: div_up_def div_greater_zero_iff mod_eq_0_iff_dvd dest: dvd_imp_le)

lemma count_chars_grid_widths:
  assumes "col \<le> length bufs" and "bufs \<noteq> []"
    and recs: "\<forall>b\<in>set bufs. length (split_fields (c_string b)) = f"
  shows "count_chars col (map record_widths bufs) (grid_widths flag f col row bufs)
           = row_width flag f col row bufs"
proof -
  have inner: "(\<Sum>j\<leftarrow>[0..<cols (grid_widths flag f col row bufs ! c)].
                  int (max_width (grid_widths flag f col row bufs ! c) ! j))
             = (\<Sum>j\<leftarrow>[0..<f]. int (column_width flag col row bufs c j))"
    if "c \<in> set [0..<col]" for c
  proof -
    from that assms(1) have c: "c < length bufs" by simp
    then have gw: "grid_widths flag f col row bufs ! c
        = \<lparr>max_width = map (column_width flag col row bufs c) [0..<f], cols = f\<rparr>"
      by (simp add: grid_widths_def)
    have "(\<Sum>j\<leftarrow>[0..<f]. int (map (column_width flag col row bufs c) [0..<f] ! j))
        = (\<Sum>j\<leftarrow>[0..<f]. int (column_width flag col row bufs c j))"
      by (rule arg_cong [where f = sum_list], rule map_cong) simp_all
    then show ?thesis unfolding gw by simp
  qed
  have "(\<Sum>c\<leftarrow>[0..<col]. \<Sum>j\<leftarrow>[0..<cols (grid_widths flag f col row bufs ! c)].
                  int (max_width (grid_widths flag f col row bufs ! c) ! j))
      = (\<Sum>c\<leftarrow>[0..<col]. \<Sum>j\<leftarrow>[0..<f]. int (column_width flag col row bufs c j))"
    by (rule arg_cong [where f = sum_list], rule map_cong, rule refl, erule inner)
  moreover have "cols (map record_widths bufs ! 0) = f"
    using assms(2) recs by (cases bufs) (simp_all add: record_widths_def)
  ultimately show ?thesis
    by (simp only: count_chars_def row_width_def)
qed

lemma length_grid_widths: "length (grid_widths flag f col row bufs) = length bufs"
  by (simp add: grid_widths_def)

lemma grid_widths_wf:
  "\<forall>t\<in>set (grid_widths flag f col row bufs). cols t = f \<and> length (max_width t) = f"
  by (auto simp: grid_widths_def)

lemma grid_pass_alt:
  "grid_pass flag columns entryc_width g =
     (let entryc = length entryc_width
      in if (if Cflag flag then curr_row g else curr_col g) = 0 then Inl DivisionByZero
         else
           (let col = (if Cflag flag then div_up entryc (curr_row g) else curr_col g);
                row = (if Cflag flag then curr_row g else div_up entryc (curr_col g))
            in case assign_widths flag col row entryc_width (reset_widths (max_col_width g)) of
                 Inl e \<Rightarrow> Inl e
               | Inr mcw \<Rightarrow>
                   if (Cflag flag \<and> row = entryc) \<or> (xflag flag \<and> col = 1)
                   then Inr (True, \<lparr>curr_col = col, curr_row = row, max_col_width = mcw\<rparr>)
                   else if \<not> col \<le> length mcw then Inl MemoryOverrun
                   else
                     (let chars = count_chars col entryc_width mcw;
                          fits = (chars \<le> columns)
                      in if fits
                         then Inr (True, \<lparr>curr_col = col, curr_row = row, max_col_width = mcw\<rparr>)
                         else Inr (False,
                                \<lparr>curr_col = (if Cflag flag then col else col - 1),
                                 curr_row = (if Cflag flag then row + 1 else row),
                                 max_col_width = mcw\<rparr>))))"
  unfolding grid_pass_def div_up_def ..

lemma grid_pass_result:
  assumes len: "length (max_col_width g) = length bufs"
    and wf: "\<forall>t\<in>set (max_col_width g). cols t = f \<and> length (max_width t) = f"
    and recs: "\<forall>b\<in>set bufs. length (split_fields (c_string b)) = f"
    and ne: "bufs \<noteq> []"
    and dv: "0 < (if Cflag flag then curr_row g else curr_col g)"
    and cb: "\<not> Cflag flag \<longrightarrow> curr_col g \<le> length bufs"
  shows "grid_pass flag columns (map record_widths bufs) g =
     (let n = length bufs;
          col = (if Cflag flag then div_up n (curr_row g) else curr_col g);
          row = (if Cflag flag then curr_row g else div_up n (curr_col g));
          G = \<lparr>curr_col = col, curr_row = row,
               max_col_width = grid_widths flag f col row bufs\<rparr>
      in if (Cflag flag \<and> row = n) \<or> (xflag flag \<and> col = 1) then Inr (True, G)
         else if row_width flag f col row bufs \<le> columns then Inr (True, G)
         else Inr (False, G\<lparr>curr_col := (if Cflag flag then col else col - 1),
                             curr_row := (if Cflag flag then row + 1 else row)\<rparr>))"
proof -
  let ?n = "length bufs"
  from ne have n: "0 < ?n" by simp
  show ?thesis
  proof (cases "Cflag flag")
    case True
    let ?col = "div_up ?n (curr_row g)"
    let ?row = "curr_row g"
    from dv True have r: "0 < curr_row g" by simp
    have col: "?col \<le> ?n" using div_up_le [OF r n] .
    have a: "assign_widths flag ?col ?row (map record_widths bufs) (reset_widths (max_col_width g))
        = Inr (grid_widths flag f ?col ?row bufs)"
      by (rule assign_widths_reset [OF len wf recs])
    have c: "count_chars ?col (map record_widths bufs) (grid_widths flag f ?col ?row bufs)
        = row_width flag f ?col ?row bufs"
      by (rule count_chars_grid_widths [OF col ne recs])
    show ?thesis
      using True r col by (simp add: grid_pass_alt Let_def a c length_grid_widths)
  next
    case False
    let ?col = "curr_col g"
    let ?row = "div_up ?n (curr_col g)"
    from dv False have r: "0 < curr_col g" by simp
    from cb False have col: "?col \<le> ?n" by simp
    have a: "assign_widths flag ?col ?row (map record_widths bufs) (reset_widths (max_col_width g))
        = Inr (grid_widths flag f ?col ?row bufs)"
      by (rule assign_widths_reset [OF len wf recs])
    have c: "count_chars ?col (map record_widths bufs) (grid_widths flag f ?col ?row bufs)
        = row_width flag f ?col ?row bufs"
      by (rule count_chars_grid_widths [OF col ne recs])
    show ?thesis
      using False r col by (simp add: grid_pass_alt Let_def a c length_grid_widths)
  qed
qed

lemma column_width_Max:
  "column_width flag col row bufs c j
     = Max (insert 1 ((\<lambda>i. length (split_fields (c_string (bufs ! i)) ! j))
                        ` {i. i < length bufs \<and> grid_column flag col row i = c}))"
proof -
  let ?g = "\<lambda>i. length (split_fields (c_string (bufs ! i)) ! j)"
  let ?xs = "map ?g (filter (\<lambda>i. grid_column flag col row i = c) [0..<length bufs])"
  have "column_width flag col row bufs c j = Max (set (1 # ?xs))"
    unfolding column_width_def by (rule Max.set_eq_fold [symmetric])
  also have "set (1 # ?xs) = insert 1 (?g ` {i. i < length bufs \<and> grid_column flag col row i = c})"
    by auto
  finally show ?thesis .
qed

lemma grid_widths_nth:
  "c < length bufs \<Longrightarrow> j < f \<Longrightarrow>
   max_width (grid_widths flag f col row bufs ! c) ! j = column_width flag col row bufs c j"
  by (simp add: grid_widths_def)

lemma row_width_single_field:
  "0 < col \<Longrightarrow> row_width flag 1 col row bufs = claimed_row_width flag 1 col row bufs"
  by (simp add: row_width_def claimed_row_width_def)

text \<open>
  Claim C2, as the code has it. In a pass of the width-fitting loop over records of \<open>f\<close>
  fields, the accumulator of every grid column holds, for each field, the largest of 1 and
  the widths of that field among the records of the column; the total compared with the
  target is the sum of these widths over the \<open>col\<close> grid columns plus \<open>col * f - 1\<close>
  separator spaces (which is \<open>col - 1\<close> for records of one field); and a pass that has not
  reached the degenerate grid leaves the loop exactly when this total is at most the target,
  while the degenerate grid is accepted without the comparison.
\<close>

theorem grid_pass_row_width:
  assumes "length (max_col_width g) = length bufs"
    and "\<forall>t\<in>set (max_col_width g). cols t = f \<and> length (max_width t) = f"
    and "\<forall>b\<in>set bufs. length (split_fields (c_string b)) = f"
    and "bufs \<noteq> []"
    and "0 < (if Cflag flag then curr_row g else curr_col g)"
    and "\<not> Cflag flag \<longrightarrow> curr_col g \<le> length bufs"
  shows "let n = length bufs;
             col = (if Cflag flag then div_up n (curr_row g) else curr_col g);
             row = (if Cflag flag then curr_row g else div_up n (curr_col g))
         in \<exists>leave g'.
              grid_pass flag columns (map record_widths bufs) g = Inr (leave, g')
              \<and> max_col_width g' = grid_widths flag f col row bufs
              \<and> (\<forall>c<col. \<forall>j<f.
                    max_width (max_col_width g' ! c) ! j = column_width flag col row bufs c j
                    \<and> column_width flag col row bufs c j
                        = Max (insert 1 ((\<lambda>i. length (split_fields (c_string (bufs ! i)) ! j))
                                  ` {i. i < n \<and> grid_column flag col row i = c})))
              \<and> row_width flag f col row bufs
                  = (\<Sum>c\<leftarrow>[0..<col]. \<Sum>j\<leftarrow>[0..<f]. int (column_width flag col row bufs c j))
                      + (int col * int f - 1)
              \<and> (f = 1 \<longrightarrow> row_width flag f col row bufs = claimed_row_width flag f col row bufs)
              \<and> (if (Cflag flag \<and> row = n) \<or> (xflag flag \<and> col = 1) then leave
                  else leave = (row_width flag f col row bufs \<le> columns))"
proof -
  let ?n = "length bufs"
  let ?col = "if Cflag flag then div_up ?n (curr_row g) else curr_col g"
  let ?row = "if Cflag flag then curr_row g else div_up ?n (curr_col g)"
  let ?G = "\<lparr>curr_col = ?col, curr_row = ?row, max_col_width = grid_widths flag f ?col ?row bufs\<rparr>"
  from assms(4) have n: "0 < ?n" by simp
  have colpos: "0 < ?col"
    using assms(5) div_up_pos [of "curr_row g" ?n] n by (auto split: if_splits)
  have col: "?col \<le> ?n"
    using assms(5,6) div_up_le [of "curr_row g" ?n] n by (auto split: if_splits)
  note gp = grid_pass_result [OF assms, of columns, unfolded Let_def]
  obtain leave g' where res: "grid_pass flag columns (map record_widths bufs) g = Inr (leave, g')"
    and mc: "max_col_width g' = grid_widths flag f ?col ?row bufs"
    and lv: "if (Cflag flag \<and> ?row = ?n) \<or> (xflag flag \<and> ?col = 1) then leave
             else leave = (row_width flag f ?col ?row bufs \<le> columns)"
  proof (cases "(Cflag flag \<and> ?row = ?n) \<or> (xflag flag \<and> ?col = 1)")
    case True
    with gp have "grid_pass flag columns (map record_widths bufs) g = Inr (True, ?G)"
      by (simp only: if_True)
    with True that [of True ?G] show ?thesis by (simp only: if_True grid.simps)
  next
    case deg: False
    show ?thesis
    proof (cases "row_width flag f ?col ?row bufs \<le> columns")
      case True
      with gp deg have "grid_pass flag columns (map record_widths bufs) g = Inr (True, ?G)"
        by (simp only: if_True if_False)
      with True deg that [of True ?G] show ?thesis by (simp only: if_True if_False grid.simps)
    next
      case False
      let ?G' = "?G\<lparr>curr_col := (if Cflag flag then ?col else ?col - 1),
                      curr_row := (if Cflag flag then ?row + 1 else ?row)\<rparr>"
      from gp deg False have "grid_pass flag columns (map record_widths bufs) g = Inr (False, ?G')"
        by (simp only: if_False)
      moreover have "max_col_width ?G' = grid_widths flag f ?col ?row bufs" by simp
      ultimately show ?thesis using False deg that [of False ?G'] by (simp only: if_False)
    qed
  qed
  have w: "\<forall>c<?col. \<forall>j<f.
       max_width (max_col_width g' ! c) ! j = column_width flag ?col ?row bufs c j
       \<and> column_width flag ?col ?row bufs c j
           = Max (insert 1 ((\<lambda>i. length (split_fields (c_string (bufs ! i)) ! j))
                     ` {i. i < ?n \<and> grid_column flag ?col ?row i = c}))"
  proof (intro allI impI)
    fix c j assume c: "c < ?col" and j: "j < f"
    from c col have cn: "c < ?n" by simp
    from cn j have "max_width (max_col_width g' ! c) ! j = column_width flag ?col ?row bufs c j"
      unfolding mc by (rule grid_widths_nth)
    then show "max_width (max_col_width g' ! c) ! j = column_width flag ?col ?row bufs c j
       \<and> column_width flag ?col ?row bufs c j
           = Max (insert 1 ((\<lambda>i. length (split_fields (c_string (bufs ! i)) ! j))
                     ` {i. i < ?n \<and> grid_column flag ?col ?row i = c}))"
      using column_width_Max [of flag ?col ?row bufs c j] by (rule conjI)
  qed
  have single: "f = 1 \<longrightarrow> row_width flag f ?col ?row bufs = claimed_row_width flag f ?col ?row bufs"
    using row_width_single_field [OF colpos] by blast
  have rw: "row_width flag f ?col ?row bufs
      = (\<Sum>c\<leftarrow>[0..<?col]. \<Sum>j\<leftarrow>[0..<f]. int (column_width flag ?col ?row bufs c j))
          + (int ?col * int f - 1)"
    by (simp only: row_width_def)
  show ?thesis
    unfolding Let_def
    by (rule exI [of _ leave], rule exI [of _ g'], intro conjI; fact)
qed

theorem grid_pass_row_width_witness:
  "\<exists>leave g'.
     grid_pass (flags_init\<lparr>Cflag := True\<rparr>) 10 (map record_widths inode_records)
        \<lparr>curr_col = 2, curr_row = 1, max_col_width = map record_widths inode_records\<rparr>
       = Inr (leave, g')
     \<and> max_col_width g' = grid_widths (flags_init\<lparr>Cflag := True\<rparr>) 2 2 1 inode_records
     \<and> row_width (flags_init\<lparr>Cflag := True\<rparr>) 2 2 1 inode_records = 8 + (2 * 2 - 1)
     \<and> leave = (row_width (flags_init\<lparr>Cflag := True\<rparr>) 2 2 1 inode_records \<le> 10)"
proof -
  let ?fl = "flags_init\<lparr>Cflag := True\<rparr>"
  let ?g = "\<lparr>curr_col = 2, curr_row = 1, max_col_width = map record_widths inode_records\<rparr>"
  have h1: "length (max_col_width ?g) = length inode_records" by simp
  have h2: "\<forall>t\<in>set (max_col_width ?g). cols t = 2 \<and> length (max_width t) = 2"
    by (simp add: inode_records_def record_widths_def c_string_def NUL_def DELIMITER_def)
  have h3: "\<forall>b\<in>set inode_records. length (split_fields (c_string b)) = 2"
    by (simp add: inode_records_def c_string_def NUL_def DELIMITER_def)
  have h4: "inode_records \<noteq> []" by (simp add: inode_records_def)
  have h5: "0 < (if Cflag ?fl then curr_row ?g else curr_col ?g)" by simp
  have h6: "\<not> Cflag ?fl \<longrightarrow> curr_col ?g \<le> length inode_records" by simp
  have col: "(if Cflag ?fl then div_up (length inode_records) (curr_row ?g) else curr_col ?g) = 2"
    by (simp add: inode_records_def div_up_def)
  have row: "(if Cflag ?fl then curr_row ?g else div_up (length inode_records) (curr_col ?g)) = 1"
    by simp
  have deg: "\<not> ((Cflag ?fl \<and> 1 = length inode_records) \<or> (xflag ?fl \<and> (2::nat) = 1))"
    by (simp add: inode_records_def)
  have rw: "row_width ?fl 2 2 1 inode_records = 8 + (2 * 2 - 1)" by code_simp
  from grid_pass_row_width [OF h1 h2 h3 h4 h5 h6, of 10, unfolded Let_def col row if_not_P [OF deg]]
  obtain leave g' where "grid_pass ?fl 10 (map record_widths inode_records) ?g = Inr (leave, g')"
    and "max_col_width g' = grid_widths ?fl 2 2 1 inode_records"
    and "leave = (row_width ?fl 2 2 1 inode_records \<le> 10)"
    by blast
  with rw show ?thesis by blast
qed

text \<open>
  Claim C2 as stated fails for records of more than one field. Two entries listed with
  their inode numbers give, in the first pass, grid columns of widths 3 + 1 and 1 + 3; with
  one separator per grid column but the last the total would be 9 and a target of 10 would
  accept the grid, but the code counts 11 and goes on to the next pass.
\<close>

theorem separator_count_counterexample:
  "claimed_row_width (flags_init\<lparr>Cflag := True\<rparr>) 2 2 1 inode_records = 9
   \<and> row_width (flags_init\<lparr>Cflag := True\<rparr>) 2 2 1 inode_records = 11
   \<and> grid_pass (flags_init\<lparr>Cflag := True\<rparr>) 10 (map record_widths inode_records)
        \<lparr>curr_col = 2, curr_row = 1, max_col_width = map record_widths inode_records\<rparr>
      = Inr (False, \<lparr>curr_col = 2, curr_row = 2,
          max_col_width = [\<lparr>max_width = [3, 1], cols = 2\<rparr>, \<lparr>max_width = [1, 3], cols = 2\<rparr>]\<rparr>)"
  by code_simp

section \<open>The width-fitting loop and the rows it prints\<close>

text \<open>The loop is left after at most as many passes as there are records, with the
  accumulators of the grid it stops at.\<close>

lemma div_up_self: "0 < n \<Longrightarrow> div_up n n = 1"
  by (simp add: div_up_def)

lemma grid_search_columns_down:
  assumes C: "Cflag flag" and x: "\<not> xflag flag"
    and recs: "\<forall>b\<in>set bufs. length (split_fields (c_string b)) = f"
    and ne: "bufs \<noteq> []"
    and len: "length (max_col_width g) = length bufs"
    and wf: "\<forall>t\<in>set (max_col_width g). cols t = f \<and> length (max_width t) = f"
    and row: "1 \<le> curr_row g" "curr_row g \<le> length bufs"
  shows "\<exists>r k'. grid_search flag columns (map record_widths bufs) g k
            = Some (Inr (\<lparr>curr_col = div_up (length bufs) r, curr_row = r,
                           max_col_width = grid_widths flag f (div_up (length bufs) r) r bufs\<rparr>, k'))
          \<and> k' \<le> k + (length bufs - curr_row g + 1)
          \<and> curr_row g \<le> r \<and> r \<le> length bufs
          \<and> (r = length bufs \<or> row_width flag f (div_up (length bufs) r) r bufs \<le> columns)"
  using len wf row
proof (induction "length bufs - curr_row g" arbitrary: g k)
  case 0
  then have r: "curr_row g = length bufs" by simp
  have dv: "0 < (if Cflag flag then curr_row g else curr_col g)" using C "0.prems"(3) by simp
  have cb: "\<not> Cflag flag \<longrightarrow> curr_col g \<le> length bufs" using C by simp
  from grid_pass_result [OF "0.prems"(1,2) recs ne dv cb, of columns]
  have "grid_pass flag columns (map record_widths bufs) g
      = Inr (True, \<lparr>curr_col = div_up (length bufs) (curr_row g), curr_row = curr_row g,
            max_col_width = grid_widths flag f (div_up (length bufs) (curr_row g)) (curr_row g) bufs\<rparr>)"
    using C r by (simp add: Let_def)
  then have "grid_search flag columns (map record_widths bufs) g k
      = Some (Inr (\<lparr>curr_col = div_up (length bufs) (curr_row g), curr_row = curr_row g,
            max_col_width = grid_widths flag f (div_up (length bufs) (curr_row g)) (curr_row g) bufs\<rparr>,
            k + 1))"
    by (subst grid_search.simps) simp
  with r show ?case by auto
next
  case (Suc m)
  let ?n = "length bufs"
  let ?r = "curr_row g"
  let ?G = "\<lparr>curr_col = div_up ?n ?r, curr_row = ?r,
            max_col_width = grid_widths flag f (div_up ?n ?r) ?r bufs\<rparr>"
  from Suc.hyps(2) have r: "?r < ?n" by simp
  have dv: "0 < (if Cflag flag then curr_row g else curr_col g)" using C Suc.prems(3) by simp
  have cb: "\<not> Cflag flag \<longrightarrow> curr_col g \<le> length bufs" using C by simp
  note gp = grid_pass_result [OF Suc.prems(1,2) recs ne dv cb, of columns]
  show ?case
  proof (cases "row_width flag f (div_up ?n ?r) ?r bufs \<le> columns")
    case True
    with gp have "grid_pass flag columns (map record_widths bufs) g = Inr (True, ?G)"
      using C x r by (simp add: Let_def)
    then have "grid_search flag columns (map record_widths bufs) g k = Some (Inr (?G, k + 1))"
      by (subst grid_search.simps) simp
    with True r show ?thesis by auto
  next
    case False
    let ?g' = "\<lparr>curr_col = div_up ?n ?r, curr_row = ?r + 1,
            max_col_width = grid_widths flag f (div_up ?n ?r) ?r bufs\<rparr>"
    from False gp have "grid_pass flag columns (map record_widths bufs) g = Inr (False, ?g')"
      using C x r by (simp add: Let_def)
    then have step: "grid_search flag columns (map record_widths bufs) g k
        = grid_search flag columns (map record_widths bufs) ?g' (k + 1)"
      by (subst grid_search.simps) simp
    have m: "m = ?n - curr_row ?g'" using Suc.hyps(2) by simp
    have "\<exists>r k'. grid_search flag columns (map record_widths bufs) ?g' (k + 1)
            = Some (Inr (\<lparr>curr_col = div_up ?n r, curr_row = r,
                           max_col_width = grid_widths flag f (div_up ?n r) r bufs\<rparr>, k'))
          \<and> k' \<le> k + 1 + (?n - curr_row ?g' + 1)
          \<and> curr_row ?g' \<le> r \<and> r \<le> ?n
          \<and> (r = ?n \<or> row_width flag f (div_up ?n r) r bufs \<le> columns)"
      by (rule Suc.hyps(1) [OF m]) (use r grid_widths_wf [of flag f] in \<open>simp_all add: length_grid_widths\<close>)
    then obtain r' k' where res: "grid_search flag columns (map record_widths bufs) ?g' (k + 1)
            = Some (Inr (\<lparr>curr_col = div_up ?n r', curr_row = r',
                           max_col_width = grid_widths flag f (div_up ?n r') r' bufs\<rparr>, k'))"
      and k': "k' \<le> k + 1 + (?n - curr_row ?g' + 1)"
      and r': "curr_row ?g' \<le> r'" "r' \<le> ?n"
      and fit: "r' = ?n \<or> row_width flag f (div_up ?n r') r' bufs \<le> columns"
      by blast
    from k' r have "k' \<le> k + (?n - ?r + 1)" by simp
    moreover from r' have "?r \<le> r'" by simp
    ultimately show ?thesis using res r'(2) fit unfolding step by blast
  qed
qed

lemma sum_upt_first:
  "col < f \<Longrightarrow> (\<Sum>k\<leftarrow>[col..<f]. g k) = g col + (\<Sum>k\<leftarrow>[Suc col..<f]. (g k :: nat))"
  by (simp add: upt_conv_Cons)

lemma print_buf_loop_cell:
  assumes "length (max_width ws) = cols ws"
    and "col + length (split_fields (c_string buf)) = cols ws"
    and "printed + length (hd (split_fields (c_string buf))) \<le> max_width ws ! col"
    and "\<forall>k. 0 < k \<and> k < length (split_fields (c_string buf)) \<longrightarrow>
           length (split_fields (c_string buf) ! k) \<le> max_width ws ! (col + k)"
  shows "\<exists>pr cell. print_buf_loop buf ws col printed stdout = Inr (cols ws - 1, pr, stdout @ cell)
           \<and> pr \<le> max_width ws ! (cols ws - 1)
           \<and> length cell + max_width ws ! (cols ws - 1) + 1 + printed
               = pr + (\<Sum>k\<leftarrow>[col..<cols ws]. max_width ws ! k + 1)"
  using assms(2-)
proof (induction buf arbitrary: col printed stdout)
  case Nil
  then have c: "col + 1 = cols ws" by (simp add: c_string_Nil)
  then have u: "[col..<cols ws] = [col]" "cols ws - 1 = col"
    by (auto simp: upt_conv_Cons)
  from Nil.prems(2) have "printed \<le> max_width ws ! col" by (simp add: c_string_Nil)
  then show ?case unfolding u by simp
next
  case (Cons c buf)
  let ?fs = "split_fields (c_string buf)"
  have pos: "0 < length ?fs" by (rule length_split_fields_pos)
  show ?case
  proof (cases "c = NUL")
    case True
    with Cons.prems(1) have c: "col + 1 = cols ws" by (simp add: c_string_NUL)
    then have u: "[col..<cols ws] = [col]" "cols ws - 1 = col"
      by (auto simp: upt_conv_Cons)
    from Cons.prems(2) True have "printed \<le> max_width ws ! col" by (simp add: c_string_NUL)
    then show ?thesis unfolding u using True by simp
  next
    case nn: False
    then have cs: "c_string (c # buf) = c # c_string buf" by (rule c_string_Cons)
    show ?thesis
    proof (cases "c = DELIMITER")
      case True
      have fs: "split_fields (c_string (DELIMITER # buf)) = [] # ?fs"
        using cs True by simp
      from Cons.prems(1) have cnt: "Suc col + length ?fs = cols ws"
        unfolding True fs by simp
      with pos have lt: "col < cols ws" by linarith
      from Cons.prems(2) have pc: "printed \<le> max_width ws ! col"
        unfolding True fs by simp
      have h0: "0 + length (hd ?fs) \<le> max_width ws ! Suc col"
      proof -
        from Cons.prems(3) [unfolded True fs] pos
        have "0 < (1::nat) \<and> 1 < length ([] # ?fs) \<longrightarrow>
            length (([] # ?fs) ! 1) \<le> max_width ws ! (col + 1)" by blast
        with pos have "length (([] # ?fs) ! 1) \<le> max_width ws ! (col + 1)" by simp
        then show ?thesis using pos by (simp add: hd_conv_nth)
      qed
      have hk: "\<forall>k. 0 < k \<and> k < length ?fs \<longrightarrow> length (?fs ! k) \<le> max_width ws ! (Suc col + k)"
      proof (intro allI impI)
        fix k assume k: "0 < k \<and> k < length ?fs"
        from Cons.prems(3) [unfolded True fs]
        have "0 < Suc k \<and> Suc k < length ([] # ?fs) \<longrightarrow>
            length (([] # ?fs) ! Suc k) \<le> max_width ws ! (col + Suc k)" by blast
        with k have "length (([] # ?fs) ! Suc k) \<le> max_width ws ! (col + Suc k)" by simp
        then show "length (?fs ! k) \<le> max_width ws ! (Suc col + k)" by simp
      qed
      let ?pad = "replicate (max_width ws ! col - printed) (CHR '' '') @ '' ''"
      from Cons.IH [OF cnt h0 hk, of "stdout @ ?pad"]
      obtain pr cell where r: "print_buf_loop buf ws (Suc col) 0 (stdout @ ?pad)
            = Inr (cols ws - 1, pr, (stdout @ ?pad) @ cell)"
        and p: "pr \<le> max_width ws ! (cols ws - 1)"
        and e: "length cell + max_width ws ! (cols ws - 1) + 1 + 0
               = pr + (\<Sum>k\<leftarrow>[Suc col..<cols ws]. max_width ws ! k + 1)"
        by blast
      have "print_buf_loop (c # buf) ws col printed stdout
          = Inr (cols ws - 1, pr, stdout @ (?pad @ cell))"
        using True DELIMITER_not_NUL lt assms(1) r by simp
      moreover have "length (?pad @ cell) + max_width ws ! (cols ws - 1) + 1 + printed
               = pr + (\<Sum>k\<leftarrow>[col..<cols ws]. max_width ws ! k + 1)"
        using e pc by (simp add: sum_upt_first [OF lt])
      ultimately show ?thesis using p by blast
    next
      case nd: False
      obtain f0 rest where sp: "?fs = f0 # rest"
        using split_fields_nonempty [of "c_string buf"] by (cases ?fs) auto
      have fs: "split_fields (c_string (c # buf)) = (c # f0) # rest"
        using cs nd sp by simp
      from Cons.prems(1) have cnt: "col + length ?fs = cols ws"
        unfolding fs sp by simp
      with pos have lt: "col < cols ws" by linarith
      from Cons.prems(2) have h0: "(printed + 1) + length (hd ?fs) \<le> max_width ws ! col"
        unfolding fs sp by simp
      have hk: "\<forall>k. 0 < k \<and> k < length ?fs \<longrightarrow> length (?fs ! k) \<le> max_width ws ! (col + k)"
      proof (intro allI impI)
        fix k assume k: "0 < k \<and> k < length ?fs"
        then obtain k' where k': "k = Suc k'" by (cases k) auto
        from Cons.prems(3) [unfolded fs]
        have "0 < k \<and> k < length ((c # f0) # rest) \<longrightarrow>
            length (((c # f0) # rest) ! k) \<le> max_width ws ! (col + k)" by blast
        with k sp have "length (((c # f0) # rest) ! k) \<le> max_width ws ! (col + k)" by simp
        then show "length (?fs ! k) \<le> max_width ws ! (col + k)" using sp k' by simp
      qed
      from Cons.IH [OF cnt h0 hk, of "stdout @ [c]"]
      obtain pr cell where r: "print_buf_loop buf ws col (printed + 1) (stdout @ [c])
            = Inr (cols ws - 1, pr, (stdout @ [c]) @ cell)"
        and p: "pr \<le> max_width ws ! (cols ws - 1)"
        and e: "length cell + max_width ws ! (cols ws - 1) + 1 + (printed + 1)
               = pr + (\<Sum>k\<leftarrow>[col..<cols ws]. max_width ws ! k + 1)"
        by blast
      have "print_buf_loop (c # buf) ws col printed stdout
          = Inr (cols ws - 1, pr, stdout @ (c # cell))"
        using nn nd lt r by simp
      moreover have "length (c # cell) + max_width ws ! (cols ws - 1) + 1 + printed
               = pr + (\<Sum>k\<leftarrow>[col..<cols ws]. max_width ws ! k + 1)"
        using e by simp
      ultimately show ?thesis using p by blast
    qed
  qed
qed

text \<open>What \<open>print_buf\<close> adds to the output for one record: at most the tracked widths and
  one space for each field, the last space replaced by the newline when one is asked for.\<close>

lemma print_buf_cell:
  assumes len: "length (max_width ws) = cols ws"
    and cnt: "length (split_fields (c_string buf)) = cols ws"
    and le: "\<forall>k<cols ws. length (split_fields (c_string buf) ! k) \<le> max_width ws ! k"
  shows "\<exists>cell. print_buf buf ws newline stdout
             = Inr (stdout @ cell @ (if newline then [CHR 0x0A] else []))
           \<and> length cell + (if newline then 1 else 0) \<le> (\<Sum>k\<leftarrow>[0..<cols ws]. max_width ws ! k + 1)"
proof -
  let ?fs = "split_fields (c_string buf)"
  have pos: "0 < length ?fs" by (rule length_split_fields_pos)
  with cnt have f: "0 < cols ws" by simp
  have h1: "0 + length ?fs = cols ws" using cnt by simp
  have h2: "0 + length (hd ?fs) \<le> max_width ws ! 0"
    using le f pos by (simp add: hd_conv_nth)
  have h3: "\<forall>k. 0 < k \<and> k < length ?fs \<longrightarrow> length (?fs ! k) \<le> max_width ws ! (0 + k)"
    using le cnt by simp
  from print_buf_loop_cell [OF len h1 h2 h3, of stdout]
  obtain pr cell where r: "print_buf_loop buf ws 0 0 stdout = Inr (cols ws - 1, pr, stdout @ cell)"
    and p: "pr \<le> max_width ws ! (cols ws - 1)"
    and e: "length cell + max_width ws ! (cols ws - 1) + 1 + 0
               = pr + (\<Sum>k\<leftarrow>[0..<cols ws]. max_width ws ! k + 1)"
    by blast
  show ?thesis
  proof (cases newline)
    case True
    then have "print_buf buf ws newline stdout
        = Inr (stdout @ cell @ (if newline then [CHR 0x0A] else []))"
      by (simp add: print_buf_def r)
    moreover have "length cell + (if newline then 1 else 0)
        \<le> (\<Sum>k\<leftarrow>[0..<cols ws]. max_width ws ! k + 1)"
      using True e p by simp
    ultimately show ?thesis by blast
  next
    case False
    let ?cell = "cell @ replicate (max_width ws ! (cols ws - 1) - pr) (CHR '' '') @ '' ''"
    have "print_buf buf ws newline stdout
        = Inr (stdout @ ?cell @ (if newline then [CHR 0x0A] else []))"
      using False f len by (simp add: print_buf_def r)
    moreover have "length ?cell + (if newline then 1 else 0)
        \<le> (\<Sum>k\<leftarrow>[0..<cols ws]. max_width ws ! k + 1)"
      using False e p by simp
    ultimately show ?thesis by blast
  qed
qed

text \<open>Reading an output line by line.\<close>

lemma line_scan_fold:
  "fst (fold line_scan cs s) \<le> fst s + length cs
   \<and> snd (fold line_scan cs s) \<le> max (snd s) (fst s + length cs)"
proof (induction cs arbitrary: s)
  case Nil
  show ?case by simp
next
  case (Cons c cs)
  from Cons [of "line_scan c s"] show ?case
    by (auto simp: line_scan_def split: if_splits)
qed

lemma line_scan_cell:
  assumes "fst (fold line_scan s (0, 0)) \<le> B" and "snd (fold line_scan s (0, 0)) \<le> M"
    and "length cell + (if newline then 1 else 0) \<le> L"
  shows "fst (fold line_scan (s @ cell @ (if newline then [CHR 0x0A] else [])) (0, 0))
           \<le> (if newline then 0 else B + L)
         \<and> snd (fold line_scan (s @ cell @ (if newline then [CHR 0x0A] else [])) (0, 0))
           \<le> max M (B + L - (if newline then 1 else 0))"
proof -
  let ?s = "fold line_scan s (0, 0)"
  from line_scan_fold [of cell ?s] assms(1,2)
  have a: "fst (fold line_scan cell ?s) \<le> B + length cell"
    and b: "snd (fold line_scan cell ?s) \<le> max M (B + length cell)"
    by auto
  show ?thesis
  proof (cases newline)
    case True
    with assms(3) have "length cell \<le> L - 1" by simp
    with b have "snd (fold line_scan cell ?s) \<le> max M (B + L - 1)" using True assms(3) by auto
    then show ?thesis using True by (simp add: line_scan_def)
  next
    case False
    with assms(3) have "length cell \<le> L" by simp
    with a b have "fst (fold line_scan cell ?s) \<le> B + L"
      "snd (fold line_scan cell ?s) \<le> max M (B + L)" by auto
    then show ?thesis using False by simp
  qed
qed

lemma line_scan_newline:
  "fst (fold line_scan (s @ [CHR 0x0A]) (0, 0)) = 0
   \<and> snd (fold line_scan (s @ [CHR 0x0A]) (0, 0)) = snd (fold line_scan s (0, 0))"
  by (simp add: line_scan_def)

text \<open>A loop over \<open>0 .. n - 1\<close> that keeps an invariant does not fail.\<close>

lemma for_each_upt_invariant:
  assumes "I 0 s"
    and "\<And>j t. j < n \<Longrightarrow> I j t \<Longrightarrow> \<exists>t'. body j t = Inr t' \<and> I (Suc j) t'"
  shows "\<exists>t. for_each [0..<n] body s = Inr t \<and> I n t"
  using assms(2)
proof (induction n)
  case 0
  with assms(1) show ?case by simp
next
  case (Suc n)
  from Suc.IH Suc.prems obtain t where t: "for_each [0..<n] body s = Inr t" "I n t"
    by (metis less_Suc_eq)
  from Suc.prems [of n t] t(2) obtain t' where t': "body n t = Inr t'" "I (Suc n) t'"
    by auto
  then show ?case by (simp add: for_each_append t)
qed

lemma column_width_ge:
  assumes "p < length bufs" and "grid_column flag col row p = c"
  shows "length (split_fields (c_string (bufs ! p)) ! k) \<le> column_width flag col row bufs c k"
proof -
  let ?S = "insert 1 ((\<lambda>i. length (split_fields (c_string (bufs ! i)) ! k))
                        ` {i. i < length bufs \<and> grid_column flag col row i = c})"
  have "finite ?S" by simp
  moreover have "length (split_fields (c_string (bufs ! p)) ! k) \<in> ?S" using assms by blast
  ultimately have "length (split_fields (c_string (bufs ! p)) ! k) \<le> Max ?S" by (rule Max_ge)
  then show ?thesis by (simp only: column_width_Max)
qed

lemma column_width_pos: "1 \<le> column_width flag col row bufs c k"
proof -
  let ?S = "insert 1 ((\<lambda>i. length (split_fields (c_string (bufs ! i)) ! k))
                        ` {i. i < length bufs \<and> grid_column flag col row i = c})"
  have "finite ?S" by simp
  moreover have "1 \<in> ?S" by simp
  ultimately have "1 \<le> Max ?S" by (rule Max_ge)
  then show ?thesis by (simp only: column_width_Max)
qed

lemma grid_widths_cell:
  assumes "c < length bufs"
  shows "cols (grid_widths flag f col row bufs ! c) = f"
    and "length (max_width (grid_widths flag f col row bufs ! c)) = f"
    and "(\<Sum>k\<leftarrow>[0..<f]. max_width (grid_widths flag f col row bufs ! c) ! k + 1)
           = (\<Sum>k\<leftarrow>[0..<f]. column_width flag col row bufs c k + 1)"
proof -
  show "cols (grid_widths flag f col row bufs ! c) = f"
    using assms by (simp add: grid_widths_def)
  show "length (max_width (grid_widths flag f col row bufs ! c)) = f"
    using assms by (simp add: grid_widths_def)
  show "(\<Sum>k\<leftarrow>[0..<f]. max_width (grid_widths flag f col row bufs ! c) ! k + 1)
           = (\<Sum>k\<leftarrow>[0..<f]. column_width flag col row bufs c k + 1)"
    by (rule arg_cong [where f = sum_list], rule map_cong)
      (simp_all add: grid_widths_nth [OF assms])
qed

text \<open>One record printed in its grid column: how far the line and the widest line can grow.\<close>

lemma grid_cell_scan:
  assumes p: "p < length bufs" and c: "grid_column flag col row p = c"
    and recs: "\<forall>b\<in>set bufs. length (split_fields (c_string b)) = f"
    and B: "fst (fold line_scan s (0, 0)) \<le> B" and M: "snd (fold line_scan s (0, 0)) \<le> M"
  shows "\<exists>s'. print_buf (bufs ! p) (grid_widths flag f col row bufs ! c) newline s = Inr s'
           \<and> fst (fold line_scan s' (0, 0))
               \<le> (if newline then 0 else B + (\<Sum>k\<leftarrow>[0..<f]. column_width flag col row bufs c k + 1))
           \<and> snd (fold line_scan s' (0, 0))
               \<le> max M (B + (\<Sum>k\<leftarrow>[0..<f]. column_width flag col row bufs c k + 1)
                          - (if newline then 1 else 0))"
proof -
  let ?ws = "grid_widths flag f col row bufs ! c"
  let ?L = "\<Sum>k\<leftarrow>[0..<f]. column_width flag col row bufs c k + 1"
  from c grid_column_le [of flag col row p] p have cn: "c < length bufs" by simp
  note gw = grid_widths_cell [OF cn, of flag f col row]
  have len: "length (max_width ?ws) = cols ?ws" using gw(1,2) by simp
  have cnt: "length (split_fields (c_string (bufs ! p))) = cols ?ws"
    using recs p gw(1) by simp
  have le: "\<forall>k<cols ?ws. length (split_fields (c_string (bufs ! p)) ! k) \<le> max_width ?ws ! k"
    using column_width_ge [OF p c] cn gw(1) by (simp add: grid_widths_nth)
  from print_buf_cell [OF len cnt le, of newline s]
  obtain cell where r: "print_buf (bufs ! p) ?ws newline s
             = Inr (s @ cell @ (if newline then [CHR 0x0A] else []))"
    and l: "length cell + (if newline then 1 else 0) \<le> (\<Sum>k\<leftarrow>[0..<cols ?ws]. max_width ?ws ! k + 1)"
    by blast
  from l have l': "length cell + (if newline then 1 else 0) \<le> ?L"
    unfolding gw(1) gw(3) .
  from line_scan_cell [OF B M l'] r show ?thesis by simp
qed

lemma sum_upt_Suc: "(\<Sum>c\<leftarrow>[0..<Suc k]. (L c :: nat)) = (\<Sum>c\<leftarrow>[0..<k]. L c) + L k"
  by simp

lemma sum_upt_mono:
  "j \<le> k \<Longrightarrow> (\<Sum>c\<leftarrow>[0..<j]. (L c :: nat)) \<le> (\<Sum>c\<leftarrow>[0..<k]. L c)"
proof (induction k)
  case 0
  then show ?case by simp
next
  case (Suc k)
  then show ?case by (cases "j = Suc k") (simp_all del: upt_Suc add: sum_upt_Suc)
qed

lemma sum_upt_less:
  assumes "j < k" and "0 < L j"
  shows "(\<Sum>c\<leftarrow>[0..<j]. (L c :: nat)) + L j \<le> (\<Sum>c\<leftarrow>[0..<k]. L c)"
    and "(\<Sum>c\<leftarrow>[0..<j]. (L c :: nat)) \<le> (\<Sum>c\<leftarrow>[0..<k]. L c) - 1"
proof -
  from assms(1) have "Suc j \<le> k" by simp
  from sum_upt_mono [OF this, of L]
  show a: "(\<Sum>c\<leftarrow>[0..<j]. L c) + L j \<le> (\<Sum>c\<leftarrow>[0..<k]. L c)" by simp
  with assms(2) show "(\<Sum>c\<leftarrow>[0..<j]. L c) \<le> (\<Sum>c\<leftarrow>[0..<k]. L c) - 1" by simp
qed

text \<open>The rows of \<open>print_columns_down\<close>, for cells that grow a line by at most \<open>L j\<close> in
  grid column \<open>j\<close>.\<close>

lemma print_columns_down_rows:
  assumes cell: "\<And>i j s B M nl. i < row \<Longrightarrow> j < col \<Longrightarrow> i + j * row < length bufs \<Longrightarrow>
        fst (fold line_scan s (0, 0)) \<le> B \<Longrightarrow> snd (fold line_scan s (0, 0)) \<le> M \<Longrightarrow>
        \<exists>s'. print_buf (bufs ! (i + j * row)) (mcw ! j) nl s = Inr s'
           \<and> fst (fold line_scan s' (0, 0)) \<le> (if nl then 0 else B + L j)
           \<and> snd (fold line_scan s' (0, 0)) \<le> max M (B + L j - (if nl then 1 else 0))"
    and mcw: "col \<le> length mcw" and col: "0 < col" and L: "\<forall>j<col. 0 < L j"
  shows "\<exists>out. print_columns_down bufs \<lparr>curr_col = col, curr_row = row, max_col_width = mcw\<rparr> = Inr out
           \<and> max_line_width out \<le> (\<Sum>j\<leftarrow>[0..<col]. L j) - 1"
proof -
  define P where "P k = (\<Sum>j\<leftarrow>[0..<k]. L j)" for k
  define R where "R = P col - 1"
  let ?scan = "\<lambda>s. fold line_scan s (0, 0)"
  let ?inner = "\<lambda>i j stdout.
             let p = i + j * row
             in if p < length bufs then
                  (if \<not> j < length mcw then Inl MemoryOverrun
                   else print_buf (bufs ! p) (mcw ! j) (j = col - 1) stdout)
                else Inr (stdout @ [CHR 0x0A])"
  have P0: "P 0 = 0" by (simp add: P_def)
  have PS: "P (Suc k) = P k + L k" for k by (simp add: P_def)
  have Pless: "P j + L j \<le> P col" "P j \<le> R" if "j < col" for j
    using sum_upt_less [OF that, of L] L that unfolding P_def R_def by simp_all
  have row: "\<exists>t. for_each [0..<col] (?inner i) s = Inr t
        \<and> (fst (?scan t) \<le> (if col = col then 0 else P col) \<and> snd (?scan t) \<le> R)"
    if i: "i < row" and s: "fst (?scan s) = 0" "snd (?scan s) \<le> R" for i s
  proof (rule for_each_upt_invariant
      [where I = "\<lambda>j t. fst (?scan t) \<le> (if j = col then 0 else P j) \<and> snd (?scan t) \<le> R"])
    show "fst (?scan s) \<le> (if 0 = col then 0 else P 0) \<and> snd (?scan s) \<le> R"
      using s by simp
  next
    fix j t
    assume j: "j < col" and inv: "fst (?scan t) \<le> (if j = col then 0 else P j) \<and> snd (?scan t) \<le> R"
    from j inv have B: "fst (?scan t) \<le> P j" and M: "snd (?scan t) \<le> R" by simp_all
    show "\<exists>t'. ?inner i j t = Inr t'
        \<and> (fst (?scan t') \<le> (if Suc j = col then 0 else P (Suc j)) \<and> snd (?scan t') \<le> R)"
    proof (cases "i + j * row < length bufs")
      case True
      from cell [OF i j True B M, of "j = col - 1"]
      obtain t' where r: "print_buf (bufs ! (i + j * row)) (mcw ! j) (j = col - 1) t = Inr t'"
        and a: "fst (?scan t') \<le> (if j = col - 1 then 0 else P j + L j)"
        and b: "snd (?scan t') \<le> max R (P j + L j - (if j = col - 1 then 1 else 0))"
        by blast
      have e: "?inner i j t = Inr t'" using True j mcw r by (simp add: Let_def)
      have nl: "(j = col - 1) = (Suc j = col)" using j by auto
      have a': "fst (?scan t') \<le> (if Suc j = col then 0 else P (Suc j))"
        using a unfolding nl PS by simp
      have b': "snd (?scan t') \<le> R"
      proof (cases "Suc j = col")
        case True
        then have "P j + L j - 1 = R" by (simp add: R_def PS [symmetric])
        moreover have eq: "j = col - 1" using True by simp
        from b have "snd (?scan t') \<le> max R (P j + L j - 1)"
          by (simp only: if_P [OF eq])
        ultimately show ?thesis by simp
      next
        case False
        with j have "Suc j < col" by simp
        from Pless(2) [OF this] have "P j + L j \<le> R" by (simp add: PS)
        moreover have ne: "j \<noteq> col - 1" using False j by simp
        from b have "snd (?scan t') \<le> max R (P j + L j - 0)"
          by (simp only: if_not_P [OF ne])
        ultimately show ?thesis by simp
      qed
      from e a' b' show ?thesis by blast
    next
      case False
      then have e: "?inner i j t = Inr (t @ [CHR 0x0A])" by (simp add: Let_def)
      have "fst (?scan (t @ [CHR 0x0A])) = 0" "snd (?scan (t @ [CHR 0x0A])) = snd (?scan t)"
        using line_scan_newline [of t] by simp_all
      with M e show ?thesis by simp
    qed
  qed
  have "\<exists>out. for_each [0..<row] (\<lambda>i. for_each [0..<col] (?inner i)) [] = Inr out
        \<and> (fst (?scan out) = 0 \<and> snd (?scan out) \<le> R)"
  proof (rule for_each_upt_invariant [where I = "\<lambda>i t. fst (?scan t) = 0 \<and> snd (?scan t) \<le> R"])
    show "fst (?scan []) = 0 \<and> snd (?scan []) \<le> R" by simp
  next
    fix i t
    assume "i < row" and "fst (?scan t) = 0 \<and> snd (?scan t) \<le> R"
    with row [of i t] show "\<exists>t'. for_each [0..<col] (?inner i) t = Inr t'
        \<and> (fst (?scan t') = 0 \<and> snd (?scan t') \<le> R)"
      by auto
  qed
  then obtain out
    where o: "for_each [0..<row] (\<lambda>i. for_each [0..<col] (?inner i)) [] = Inr out"
      and m: "snd (?scan out) \<le> R"
    by blast
  have "print_columns_down bufs \<lparr>curr_col = col, curr_row = row, max_col_width = mcw\<rparr>
      = Inr out"
    unfolding print_columns_down_def grid.select_convs using o by simp
  moreover from m have "max_line_width out \<le> (\<Sum>j\<leftarrow>[0..<col]. L j) - 1"
    by (simp add: max_line_width_def R_def P_def)
  ultimately show ?thesis by blast
qed

text \<open>The rows of \<open>print_rows_across\<close>.\<close>

lemma print_rows_across_rows:
  assumes cell: "\<And>i s B M nl. i < length bufs \<Longrightarrow>
        fst (fold line_scan s (0, 0)) \<le> B \<Longrightarrow> snd (fold line_scan s (0, 0)) \<le> M \<Longrightarrow>
        \<exists>s'. print_buf (bufs ! i) (mcw ! (i mod col)) nl s = Inr s'
           \<and> fst (fold line_scan s' (0, 0)) \<le> (if nl then 0 else B + L (i mod col))
           \<and> snd (fold line_scan s' (0, 0)) \<le> max M (B + L (i mod col) - (if nl then 1 else 0))"
    and mcw: "col \<le> length mcw" and col: "0 < col" and L: "\<forall>j<col. 0 < L j"
  shows "\<exists>out. print_rows_across bufs \<lparr>curr_col = col, curr_row = row, max_col_width = mcw\<rparr> = Inr out
           \<and> max_line_width out \<le> (\<Sum>j\<leftarrow>[0..<col]. L j) - 1"
proof -
  define P where "P k = (\<Sum>j\<leftarrow>[0..<k]. L j)" for k
  define R where "R = P col - 1"
  let ?n = "length bufs"
  let ?scan = "\<lambda>s. fold line_scan s (0, 0)"
  let ?body = "\<lambda>i stdout.
           let coli = i mod col
           in if \<not> coli < length mcw then Inl MemoryOverrun
              else print_buf (bufs ! i) (mcw ! coli) (coli = col - 1 \<or> i = ?n - 1) stdout"
  have PS: "P (Suc k) = P k + L k" for k by (simp add: P_def)
  have Pless: "P j + L j \<le> P col" "P j \<le> R" if "j < col" for j
    using sum_upt_less [OF that, of L] L that unfolding P_def R_def by simp_all
  have "\<exists>out. for_each [0..<?n] ?body [] = Inr out
        \<and> (fst (?scan out) \<le> (if ?n = ?n then 0 else P (?n mod col)) \<and> snd (?scan out) \<le> R)"
  proof (rule for_each_upt_invariant
      [where I = "\<lambda>i t. fst (?scan t) \<le> (if i = ?n then 0 else P (i mod col)) \<and> snd (?scan t) \<le> R"])
    show "fst (?scan []) \<le> (if 0 = ?n then 0 else P (0 mod col)) \<and> snd (?scan []) \<le> R"
      by simp
  next
    fix i t
    assume i: "i < ?n"
      and inv: "fst (?scan t) \<le> (if i = ?n then 0 else P (i mod col)) \<and> snd (?scan t) \<le> R"
    let ?c = "i mod col"
    let ?nl = "?c = col - 1 \<or> i = ?n - 1"
    from col have c: "?c < col" by simp
    from i inv have B: "fst (?scan t) \<le> P ?c" and M: "snd (?scan t) \<le> R" by simp_all
    from cell [OF i B M, of ?nl]
    obtain t' where r: "print_buf (bufs ! i) (mcw ! ?c) ?nl t = Inr t'"
      and a: "fst (?scan t') \<le> (if ?nl then 0 else P ?c + L ?c)"
      and b: "snd (?scan t') \<le> max R (P ?c + L ?c - (if ?nl then 1 else 0))"
      by blast
    have e: "?body i t = Inr t'" using c mcw r by (simp add: Let_def)
    have a': "fst (?scan t') \<le> (if Suc i = ?n then 0 else P (Suc i mod col))"
    proof (cases ?nl)
      case True
      with a show ?thesis by simp
    next
      case False
      then have "Suc ?c \<noteq> col" "Suc i \<noteq> ?n" using c i by auto
      then have "Suc i mod col = Suc ?c" by (simp add: mod_Suc)
      with a False \<open>Suc i \<noteq> ?n\<close> show ?thesis by (simp add: PS)
    qed
    have b': "snd (?scan t') \<le> R"
    proof (cases ?nl)
      case True
      from Pless(1) [OF c] have "P ?c + L ?c - 1 \<le> R" by (simp add: R_def)
      with b True show ?thesis by simp
    next
      case False
      then have "Suc ?c < col" using c by auto
      from Pless(2) [OF this] have "P ?c + L ?c \<le> R" by (simp add: PS)
      with b False show ?thesis by simp
    qed
    from e a' b' show "\<exists>t'. ?body i t = Inr t'
        \<and> (fst (?scan t') \<le> (if Suc i = ?n then 0 else P (Suc i mod col)) \<and> snd (?scan t') \<le> R)"
      by blast
  qed
  then obtain out
    where o: "for_each [0..<?n] ?body [] = Inr out"
      and m: "snd (?scan out) \<le> R"
    by auto
  have "print_rows_across bufs \<lparr>curr_col = col, curr_row = row, max_col_width = mcw\<rparr>
      = Inr out"
    unfolding print_rows_across_def grid.select_convs using o col by simp
  moreover from m have "max_line_width out \<le> (\<Sum>j\<leftarrow>[0..<col]. L j) - 1"
    by (simp add: max_line_width_def R_def P_def)
  ultimately show ?thesis by blast
qed

lemma grid_search_rows_across:
  assumes C: "\<not> Cflag flag" and x: "xflag flag"
    and recs: "\<forall>b\<in>set bufs. length (split_fields (c_string b)) = f"
    and ne: "bufs \<noteq> []"
    and len: "length (max_col_width g) = length bufs"
    and wf: "\<forall>t\<in>set (max_col_width g). cols t = f \<and> length (max_width t) = f"
    and col: "1 \<le> curr_col g" "curr_col g \<le> length bufs"
  shows "\<exists>c k'. grid_search flag columns (map record_widths bufs) g k
            = Some (Inr (\<lparr>curr_col = c, curr_row = div_up (length bufs) c,
                           max_col_width = grid_widths flag f c (div_up (length bufs) c) bufs\<rparr>, k'))
          \<and> k' \<le> k + curr_col g
          \<and> 1 \<le> c \<and> c \<le> curr_col g
          \<and> (c = 1 \<or> row_width flag f c (div_up (length bufs) c) bufs \<le> columns)"
  using len wf col
proof (induction "curr_col g - 1" arbitrary: g k)
  case 0
  then have c: "curr_col g = 1" by simp
  have dv: "0 < (if Cflag flag then curr_row g else curr_col g)" using C c by simp
  have cb: "\<not> Cflag flag \<longrightarrow> curr_col g \<le> length bufs" using "0.prems"(4) by simp
  let ?G = "\<lparr>curr_col = curr_col g, curr_row = div_up (length bufs) (curr_col g),
            max_col_width = grid_widths flag f (curr_col g) (div_up (length bufs) (curr_col g)) bufs\<rparr>"
  from grid_pass_result [OF "0.prems"(1,2) recs ne dv cb, of columns]
  have "grid_pass flag columns (map record_widths bufs) g = Inr (True, ?G)"
    using C x c by (simp add: Let_def)
  then have "grid_search flag columns (map record_widths bufs) g k = Some (Inr (?G, k + 1))"
    by (subst grid_search.simps) simp
  with c show ?case by auto
next
  case (Suc m)
  let ?n = "length bufs"
  let ?c = "curr_col g"
  let ?G = "\<lparr>curr_col = ?c, curr_row = div_up ?n ?c,
            max_col_width = grid_widths flag f ?c (div_up ?n ?c) bufs\<rparr>"
  from Suc.hyps(2) have c: "1 < ?c" by simp
  have dv: "0 < (if Cflag flag then curr_row g else curr_col g)" using C c by simp
  have cb: "\<not> Cflag flag \<longrightarrow> curr_col g \<le> length bufs" using Suc.prems(4) by simp
  note gp = grid_pass_result [OF Suc.prems(1,2) recs ne dv cb, of columns]
  show ?case
  proof (cases "row_width flag f ?c (div_up ?n ?c) bufs \<le> columns")
    case True
    with gp have "grid_pass flag columns (map record_widths bufs) g = Inr (True, ?G)"
      using C x c by (simp add: Let_def)
    then have "grid_search flag columns (map record_widths bufs) g k = Some (Inr (?G, k + 1))"
      by (subst grid_search.simps) simp
    with True c show ?thesis by auto
  next
    case False
    let ?g' = "\<lparr>curr_col = ?c - 1, curr_row = div_up ?n ?c,
            max_col_width = grid_widths flag f ?c (div_up ?n ?c) bufs\<rparr>"
    from False gp have "grid_pass flag columns (map record_widths bufs) g = Inr (False, ?g')"
      using C x c by (simp add: Let_def)
    then have step: "grid_search flag columns (map record_widths bufs) g k
        = grid_search flag columns (map record_widths bufs) ?g' (k + 1)"
      by (subst grid_search.simps) simp
    have m: "m = curr_col ?g' - 1" using Suc.hyps(2) by simp
    have "\<exists>c k'. grid_search flag columns (map record_widths bufs) ?g' (k + 1)
            = Some (Inr (\<lparr>curr_col = c, curr_row = div_up ?n c,
                           max_col_width = grid_widths flag f c (div_up ?n c) bufs\<rparr>, k'))
          \<and> k' \<le> k + 1 + curr_col ?g'
          \<and> 1 \<le> c \<and> c \<le> curr_col ?g'
          \<and> (c = 1 \<or> row_width flag f c (div_up ?n c) bufs \<le> columns)"
      by (rule Suc.hyps(1) [OF m])
        (use c Suc.prems(4) grid_widths_wf [of flag f] in \<open>simp_all add: length_grid_widths\<close>)
    then obtain c' k' where res: "grid_search flag columns (map record_widths bufs) ?g' (k + 1)
            = Some (Inr (\<lparr>curr_col = c', curr_row = div_up ?n c',
                           max_col_width = grid_widths flag f c' (div_up ?n c') bufs\<rparr>, k'))"
      and k': "k' \<le> k + 1 + curr_col ?g'"
      and c': "1 \<le> c'" "c' \<le> curr_col ?g'"
      and fit: "c' = 1 \<or> row_width flag f c' (div_up ?n c') bufs \<le> columns"
      by blast
    from k' c have "k' \<le> k + ?c" by simp
    moreover from c'(2) have "c' \<le> ?c" by simp
    ultimately show ?thesis using res c'(1) fit unfolding step by blast
  qed
qed

lemma sum_succ_upt: "(\<Sum>j\<leftarrow>[0..<f]. g j + 1) = (\<Sum>j\<leftarrow>[0..<f]. (g j :: nat)) + f"
  by (induction f) simp_all

lemma sum_Suc_upt: "(\<Sum>j\<leftarrow>[0..<f]. Suc (g j)) = (\<Sum>j\<leftarrow>[0..<f]. g j) + f"
  using sum_succ_upt [of g f] by simp

lemma int_sum_upt: "(\<Sum>j\<leftarrow>[0..<f]. int (g j)) = int (\<Sum>j\<leftarrow>[0..<f]. g j)"
  by (induction f) simp_all

text \<open>The total of the width-fitting loop, as the room of the cells of a row less one.\<close>

lemma row_width_cells:
  "row_width flag f col row bufs + 1
     = int (\<Sum>c\<leftarrow>[0..<col]. \<Sum>j\<leftarrow>[0..<f]. column_width flag col row bufs c j + 1)"
proof -
  let ?cw = "column_width flag col row bufs"
  have a: "(\<Sum>c\<leftarrow>[0..<k]. \<Sum>j\<leftarrow>[0..<f]. ?cw c j + 1) = (\<Sum>c\<leftarrow>[0..<k]. \<Sum>j\<leftarrow>[0..<f]. ?cw c j) + k * f" for k
    by (induction k) (simp_all add: sum_Suc_upt)
  have b: "(\<Sum>c\<leftarrow>[0..<k]. \<Sum>j\<leftarrow>[0..<f]. int (?cw c j)) = int (\<Sum>c\<leftarrow>[0..<k]. \<Sum>j\<leftarrow>[0..<f]. ?cw c j)" for k
    by (induction k) (simp_all add: int_sum_upt)
  show ?thesis unfolding row_width_def a b by simp
qed

lemma cell_room_pos: "0 < f \<Longrightarrow> 0 < (\<Sum>j\<leftarrow>[0..<f]. (g j :: nat) + 1)"
  by (simp only: sum_succ_upt)

lemma fields_pos:
  assumes "bufs \<noteq> []" and "\<forall>b\<in>set bufs. length (split_fields (c_string b)) = f"
  shows "0 < f"
proof -
  from assms(1) have "hd bufs \<in> set bufs" by simp
  with assms(2) have "length (split_fields (c_string (hd bufs))) = f" by blast
  with length_split_fields_pos [of "c_string (hd bufs)"] show ?thesis by simp
qed

text \<open>No row of the grid that is printed is wider than the total the loop computed for it.\<close>

lemma print_columns_down_width:
  assumes C: "Cflag flag"
    and recs: "\<forall>b\<in>set bufs. length (split_fields (c_string b)) = f"
    and ne: "bufs \<noteq> []"
    and row: "0 < row"
  shows "\<exists>out. print_columns_down bufs
             \<lparr>curr_col = div_up (length bufs) row, curr_row = row,
              max_col_width = grid_widths flag f (div_up (length bufs) row) row bufs\<rparr> = Inr out
           \<and> int (max_line_width out) \<le> row_width flag f (div_up (length bufs) row) row bufs"
proof -
  let ?n = "length bufs"
  let ?col = "div_up ?n row"
  let ?L = "\<lambda>c. \<Sum>j\<leftarrow>[0..<f]. column_width flag ?col row bufs c j + 1"
  from ne have n: "0 < ?n" by simp
  have f: "0 < f" using ne recs by (rule fields_pos)
  have cell: "\<exists>s'. print_buf (bufs ! (i + j * row)) (grid_widths flag f ?col row bufs ! j) nl s = Inr s'
           \<and> fst (fold line_scan s' (0, 0)) \<le> (if nl then 0 else B + ?L j)
           \<and> snd (fold line_scan s' (0, 0)) \<le> max M (B + ?L j - (if nl then 1 else 0))"
    if "i < row" "j < ?col" "i + j * row < ?n"
      "fst (fold line_scan s (0, 0)) \<le> B" "snd (fold line_scan s (0, 0)) \<le> M"
    for i j s B M nl
  proof -
    have "grid_column flag ?col row (i + j * row) = j"
      using C that(1) by (simp add: grid_column_def)
    from grid_cell_scan [OF that(3) this recs that(4,5)] show ?thesis .
  qed
  have mcw: "?col \<le> length (grid_widths flag f ?col row bufs)"
    using div_up_le [OF row n] by (simp add: length_grid_widths)
  have col: "0 < ?col" using row n by (rule div_up_pos)
  have L: "\<forall>j<?col. 0 < ?L j" using cell_room_pos [OF f] by blast
  from print_columns_down_rows [where L = ?L, OF cell mcw col L]
  obtain out where o: "print_columns_down bufs
             \<lparr>curr_col = ?col, curr_row = row, max_col_width = grid_widths flag f ?col row bufs\<rparr> = Inr out"
    and m: "max_line_width out \<le> (\<Sum>c\<leftarrow>[0..<?col]. ?L c) - 1"
    by blast
  from L col have l0: "0 < ?L 0" by blast
  from sum_upt_less(1) [where L = ?L and j = 0, OF col l0] l0
  have "0 < (\<Sum>c\<leftarrow>[0..<?col]. ?L c)"
    by simp
  with m have "int (max_line_width out) \<le> int (\<Sum>c\<leftarrow>[0..<?col]. ?L c) - 1" by linarith
  with row_width_cells [of flag f ?col row bufs]
  have "int (max_line_width out) \<le> row_width flag f ?col row bufs" by simp
  with o show ?thesis by blast
qed

lemma print_rows_across_width:
  assumes C: "\<not> Cflag flag"
    and recs: "\<forall>b\<in>set bufs. length (split_fields (c_string b)) = f"
    and ne: "bufs \<noteq> []"
    and col: "0 < col" "col \<le> length bufs"
  shows "\<exists>out. print_rows_across bufs
             \<lparr>curr_col = col, curr_row = row, max_col_width = grid_widths flag f col row bufs\<rparr> = Inr out
           \<and> int (max_line_width out) \<le> row_width flag f col row bufs"
proof -
  let ?n = "length bufs"
  let ?L = "\<lambda>c. \<Sum>j\<leftarrow>[0..<f]. column_width flag col row bufs c j + 1"
  have f: "0 < f" using ne recs by (rule fields_pos)
  have cell: "\<exists>s'. print_buf (bufs ! i) (grid_widths flag f col row bufs ! (i mod col)) nl s = Inr s'
           \<and> fst (fold line_scan s' (0, 0)) \<le> (if nl then 0 else B + ?L (i mod col))
           \<and> snd (fold line_scan s' (0, 0)) \<le> max M (B + ?L (i mod col) - (if nl then 1 else 0))"
    if "i < ?n" "fst (fold line_scan s (0, 0)) \<le> B" "snd (fold line_scan s (0, 0)) \<le> M"
    for i s B M nl
  proof -
    have "grid_column flag col row i = i mod col"
      using C by (simp add: grid_column_def)
    from grid_cell_scan [OF that(1) this recs that(2,3)] show ?thesis .
  qed
  have mcw: "col \<le> length (grid_widths flag f col row bufs)"
    using col(2) by (simp add: length_grid_widths)
  have L: "\<forall>j<col. 0 < ?L j" using cell_room_pos [OF f] by blast
  from print_rows_across_rows [where L = ?L, OF cell mcw col(1) L]
  obtain out where o: "print_rows_across bufs
             \<lparr>curr_col = col, curr_row = row, max_col_width = grid_widths flag f col row bufs\<rparr> = Inr out"
    and m: "max_line_width out \<le> (\<Sum>c\<leftarrow>[0..<col]. ?L c) - 1"
    by blast
  from L col(1) have l0: "0 < ?L 0" by blast
  from sum_upt_less(1) [where L = ?L and j = 0, OF col(1) l0] l0
  have "0 < (\<Sum>c\<leftarrow>[0..<col]. ?L c)"
    by simp
  with m have "int (max_line_width out) \<le> int (\<Sum>c\<leftarrow>[0..<col]. ?L c) - 1" by linarith
  with row_width_cells [of flag f col row bufs]
  have "int (max_line_width out) \<le> row_width flag f col row bufs" by simp
  with o show ?thesis by blast
qed

text \<open>A record is as long as its fields and the delimiters between them.\<close>

lemma length_fields:
  "length s + 1 = sum_list (map length (split_fields s)) + length (split_fields s)"
proof (induction s)
  case Nil
  show ?case by simp
next
  case (Cons c s)
  obtain f0 rest where sp: "split_fields s = f0 # rest"
    using split_fields_nonempty [of s] by (cases "split_fields s") auto
  with Cons show ?case by simp
qed

lemma record_width_fields:
  assumes "length (split_fields (c_string b)) = f"
  shows "record_width b + 1 = (\<Sum>k\<leftarrow>[0..<f]. length (split_fields (c_string b) ! k)) + f"
proof -
  let ?fs = "split_fields (c_string b)"
  have "map (\<lambda>k. length (?fs ! k)) [0..<length ?fs] = map length (map ((!) ?fs) [0..<length ?fs])"
    by simp
  also have "\<dots> = map length ?fs" by (simp only: map_nth)
  finally have "(\<Sum>k\<leftarrow>[0..<length ?fs]. length (?fs ! k)) = sum_list (map length ?fs)" by simp
  with length_fields [of "c_string b"] assms show ?thesis by (simp add: record_width_def)
qed

text \<open>No grid has a total smaller than the width of one of its records.\<close>

lemma record_width_le_row_width:
  assumes p: "p < length bufs" and c: "grid_column flag col row p < col"
    and recs: "\<forall>b\<in>set bufs. length (split_fields (c_string b)) = f"
  shows "int (record_width (bufs ! p)) \<le> row_width flag f col row bufs"
proof -
  let ?c = "grid_column flag col row p"
  let ?fs = "split_fields (c_string (bufs ! p))"
  let ?L = "\<lambda>c. \<Sum>j\<leftarrow>[0..<f]. column_width flag col row bufs c j + 1"
  from p recs have cnt: "length ?fs = f" by simp
  have "(\<Sum>k\<leftarrow>[0..<f]. length (?fs ! k)) \<le> (\<Sum>k\<leftarrow>[0..<f]. column_width flag col row bufs ?c k)"
    by (rule sum_list_mono) (rule column_width_ge [OF p refl])
  with record_width_fields [OF cnt]
  have "record_width (bufs ! p) + 1 \<le> ?L ?c" by (simp only: sum_succ_upt)
  moreover have "0 < ?L ?c" using calculation by simp
  from sum_upt_less(1) [where L = ?L and j = ?c, OF c this]
  have "?L ?c \<le> (\<Sum>c\<leftarrow>[0..<col]. ?L c)" by simp
  ultimately have "int (record_width (bufs ! p)) + 1 \<le> int (\<Sum>c\<leftarrow>[0..<col]. ?L c)" by linarith
  with row_width_cells [of flag f col row bufs] show ?thesis by simp
qed

lemma div_less_div_up: "0 < r \<Longrightarrow> p < n \<Longrightarrow> p div r < div_up n r"
proof -
  assume r: "0 < r" and p: "p < n"
  show ?thesis
  proof (cases "n mod r = 0")
    case True
    then have "r dvd n" by auto
    then have "n = n div r * r" by simp
    with p have "p < n div r * r" by simp
    with r have "p div r < n div r" by (simp add: div_less_iff_less_mult)
    with True show ?thesis by (simp add: div_up_def)
  next
    case False
    have "p div r \<le> n div r" using p by (simp add: div_le_mono)
    with False show ?thesis by (simp add: div_up_def)
  qed
qed

lemma grid_column_less:
  assumes "p < length bufs" and "if Cflag flag then 0 < row \<and> col = div_up (length bufs) row else 0 < col"
  shows "grid_column flag col row p < col"
  using assms by (auto simp: grid_column_def div_less_div_up split: if_splits)

text \<open>With one field to a record, one grid column and a positive target, a total over the
  target means that a record is wider than the target.\<close>

lemma column_width_cases:
  "column_width flag col row bufs c k = 1
   \<or> (\<exists>p<length bufs. column_width flag col row bufs c k
                          = length (split_fields (c_string (bufs ! p)) ! k))"
proof -
  let ?S = "insert 1 ((\<lambda>i. length (split_fields (c_string (bufs ! i)) ! k))
                        ` {i. i < length bufs \<and> grid_column flag col row i = c})"
  have "finite ?S" "?S \<noteq> {}" by simp_all
  then have "Max ?S \<in> ?S" by (rule Max_in)
  then have "column_width flag col row bufs c k \<in> ?S" by (simp only: column_width_Max)
  then show ?thesis by auto
qed

lemma single_column_wide:
  assumes recs: "\<forall>b\<in>set bufs. length (split_fields (c_string b)) = 1"
    and over: "columns < row_width flag 1 1 row bufs" and tw: "0 < columns"
  shows "\<exists>b\<in>set bufs. columns < int (record_width b)"
proof -
  have rw: "row_width flag 1 1 row bufs = int (column_width flag 1 row bufs 0 0)"
    by (simp add: row_width_def)
  from column_width_cases [of flag 1 row bufs 0 0]
  show ?thesis
  proof
    assume "column_width flag 1 row bufs 0 0 = 1"
    with over tw rw show ?thesis by simp
  next
    assume "\<exists>p<length bufs. column_width flag 1 row bufs 0 0
                          = length (split_fields (c_string (bufs ! p)) ! 0)"
    then obtain p where p: "p < length bufs"
      and e: "column_width flag 1 row bufs 0 0 = length (split_fields (c_string (bufs ! p)) ! 0)"
      by blast
    from p recs have "length (split_fields (c_string (bufs ! p))) = 1" by simp
    from record_width_fields [OF this]
    have "record_width (bufs ! p) = length (split_fields (c_string (bufs ! p)) ! 0)" by simp
    with e over rw have "columns < int (record_width (bufs ! p))" by simp
    with p show ?thesis by (metis nth_mem)
  qed
qed

lemma print_grid_search:
  "print_grid flag columns bufs =
     (case grid_search flag columns (map record_widths bufs)
             \<lparr>curr_col = length bufs, curr_row = 1, max_col_width = map record_widths bufs\<rparr> 0 of
        None \<Rightarrow> None
      | Some (Inl e) \<Rightarrow> Some (Inl e)
      | Some (Inr (g, n)) \<Rightarrow>
          Some (if Cflag flag then print_columns_down bufs g else print_rows_across bufs g))"
  by (simp add: print_grid_def for_each_init)

lemma record_widths_wf:
  assumes "\<forall>b\<in>set bufs. length (split_fields (c_string b)) = f"
  shows "\<forall>t\<in>set (map record_widths bufs). cols t = f \<and> length (max_width t) = f"
  using assms by (auto simp: record_widths_def)

text \<open>
  Claim C1, as the code has it. For a batch of \<open>n \<ge> 1\<close> records of \<open>f\<close> fields each, exactly
  one of the two grid modes and a positive target width \<open>columns\<close>, the width-fitting loop
  of \<open>print_dir\<close> is left after at most \<open>n\<close> passes and the grid is printed without error.
  No row of the output is wider than the total the last pass computed; so no row is wider
  than the target unless the loop was left with the degenerate grid (\<open>n\<close> rows in
  columns-down mode, one column in rows-across mode). A record wider than the target
  forces the degenerate grid. When the records have a single field, a row wider than the
  target means that some record is wider than the target.
\<close>

theorem grid_search_terminates:
  assumes ne: "bufs \<noteq> []"
    and recs: "\<forall>b\<in>set bufs. length (split_fields (c_string b)) = f"
    and mode: "Cflag flag \<noteq> xflag flag"
    and tw: "0 < columns"
  shows "\<exists>g k out.
     grid_search flag columns (map record_widths bufs)
         \<lparr>curr_col = length bufs, curr_row = 1, max_col_width = map record_widths bufs\<rparr> 0
       = Some (Inr (g, k))
     \<and> k \<le> length bufs
     \<and> print_grid flag columns bufs = Some (Inr out)
     \<and> int (max_line_width out) \<le> row_width flag f (curr_col g) (curr_row g) bufs
     \<and> (int (max_line_width out) \<le> columns
          \<or> (if Cflag flag then curr_row g = length bufs else curr_col g = 1))
     \<and> ((\<exists>b\<in>set bufs. columns < int (record_width b))
          \<longrightarrow> (if Cflag flag then curr_row g = length bufs else curr_col g = 1))
     \<and> (f = 1 \<and> columns < int (max_line_width out)
          \<longrightarrow> (\<exists>b\<in>set bufs. columns < int (record_width b)))"
proof -
  let ?n = "length bufs"
  let ?ew = "map record_widths bufs"
  let ?g0 = "\<lparr>curr_col = ?n, curr_row = 1, max_col_width = ?ew\<rparr>"
  from ne have n: "1 \<le> ?n" by (cases bufs) simp_all
  have len0: "length (max_col_width ?g0) = ?n" by simp
  have wf0: "\<forall>t\<in>set (max_col_width ?g0). cols t = f \<and> length (max_width t) = f"
    using record_widths_wf [OF recs] by simp
  show ?thesis
  proof (cases "Cflag flag")
    case C: True
    with mode have x: "\<not> xflag flag" by simp
    have r0: "1 \<le> curr_row ?g0" "curr_row ?g0 \<le> ?n" using n by simp_all
    from grid_search_columns_down [OF C x recs ne len0 wf0 r0, of columns 0]
    obtain r k where gs: "grid_search flag columns ?ew ?g0 0
            = Some (Inr (\<lparr>curr_col = div_up ?n r, curr_row = r,
                           max_col_width = grid_widths flag f (div_up ?n r) r bufs\<rparr>, k))"
      and k: "k \<le> 0 + (?n - curr_row ?g0 + 1)"
      and r: "curr_row ?g0 \<le> r" "r \<le> ?n"
      and fit: "r = ?n \<or> row_width flag f (div_up ?n r) r bufs \<le> columns"
      by blast
    let ?G = "\<lparr>curr_col = div_up ?n r, curr_row = r,
               max_col_width = grid_widths flag f (div_up ?n r) r bufs\<rparr>"
    from r(1) have rp: "0 < r" by simp
    from print_columns_down_width [OF C recs ne rp]
    obtain out where o: "print_columns_down bufs ?G = Inr out"
      and m: "int (max_line_width out) \<le> row_width flag f (div_up ?n r) r bufs"
      by blast
    have c1: "k \<le> ?n" using k n by simp
    have c2: "print_grid flag columns bufs = Some (Inr out)"
      unfolding print_grid_search gs using C o by simp
    have c3: "int (max_line_width out) \<le> row_width flag f (curr_col ?G) (curr_row ?G) bufs"
      using m by simp
    have c4: "int (max_line_width out) \<le> columns
          \<or> (if Cflag flag then curr_row ?G = ?n else curr_col ?G = 1)"
      using fit m C by auto
    have c5: "(\<exists>b\<in>set bufs. columns < int (record_width b))
          \<longrightarrow> (if Cflag flag then curr_row ?G = ?n else curr_col ?G = 1)"
    proof
      assume "\<exists>b\<in>set bufs. columns < int (record_width b)"
      then obtain p where p: "p < ?n" and w: "columns < int (record_width (bufs ! p))"
        by (auto simp: in_set_conv_nth)
      have "grid_column flag (div_up ?n r) r p < div_up ?n r"
        using p C rp by (intro grid_column_less) simp_all
      from record_width_le_row_width [OF p this recs] w
      have "columns < row_width flag f (div_up ?n r) r bufs" by simp
      with fit C show "if Cflag flag then curr_row ?G = ?n else curr_col ?G = 1" by simp
    qed
    have c6: "f = 1 \<and> columns < int (max_line_width out)
          \<longrightarrow> (\<exists>b\<in>set bufs. columns < int (record_width b))"
    proof
      assume a: "f = 1 \<and> columns < int (max_line_width out)"
      with fit m have rn: "r = ?n" by auto
      with rp have "div_up ?n r = 1" by (simp add: div_up_self)
      with a m rn have "columns < row_width flag 1 1 ?n bufs" by simp
      from single_column_wide [OF _ this tw] recs a
      show "\<exists>b\<in>set bufs. columns < int (record_width b)" by simp
    qed
    from gs c1 c2 c3 c4 c5 c6 show ?thesis by blast
  next
    case C: False
    with mode have x: "xflag flag" by simp
    have col0: "1 \<le> curr_col ?g0" "curr_col ?g0 \<le> ?n" using n by simp_all
    from grid_search_rows_across [OF C x recs ne len0 wf0 col0, of columns 0]
    obtain c k where gs: "grid_search flag columns ?ew ?g0 0
            = Some (Inr (\<lparr>curr_col = c, curr_row = div_up ?n c,
                           max_col_width = grid_widths flag f c (div_up ?n c) bufs\<rparr>, k))"
      and k: "k \<le> 0 + curr_col ?g0"
      and c: "1 \<le> c" "c \<le> curr_col ?g0"
      and fit: "c = 1 \<or> row_width flag f c (div_up ?n c) bufs \<le> columns"
      by blast
    let ?G = "\<lparr>curr_col = c, curr_row = div_up ?n c,
               max_col_width = grid_widths flag f c (div_up ?n c) bufs\<rparr>"
    from c have cp: "0 < c" and cn: "c \<le> ?n" by simp_all
    from print_rows_across_width [OF C recs ne cp cn]
    obtain out where o: "print_rows_across bufs ?G = Inr out"
      and m: "int (max_line_width out) \<le> row_width flag f c (div_up ?n c) bufs"
      by blast
    have c1: "k \<le> ?n" using k by simp
    have c2: "print_grid flag columns bufs = Some (Inr out)"
      unfolding print_grid_search gs using C o by simp
    have c3: "int (max_line_width out) \<le> row_width flag f (curr_col ?G) (curr_row ?G) bufs"
      using m by simp
    have c4: "int (max_line_width out) \<le> columns
          \<or> (if Cflag flag then curr_row ?G = ?n else curr_col ?G = 1)"
      using fit m C by auto
    have c5: "(\<exists>b\<in>set bufs. columns < int (record_width b))
          \<longrightarrow> (if Cflag flag then curr_row ?G = ?n else curr_col ?G = 1)"
    proof
      assume "\<exists>b\<in>set bufs. columns < int (record_width b)"
      then obtain p where p: "p < ?n" and w: "columns < int (record_width (bufs ! p))"
        by (auto simp: in_set_conv_nth)
      have "grid_column flag c (div_up ?n c) p < c"
        using p C cp by (intro grid_column_less) simp_all
      from record_width_le_row_width [OF p this recs] w
      have "columns < row_width flag f c (div_up ?n c) bufs" by simp
      with fit C show "if Cflag flag then curr_row ?G = ?n else curr_col ?G = 1" by simp
    qed
    have c6: "f = 1 \<and> columns < int (max_line_width out)
          \<longrightarrow> (\<exists>b\<in>set bufs. columns < int (record_width b))"
    proof
      assume a: "f = 1 \<and> columns < int (max_line_width out)"
      with fit m have c1: "c = 1" by auto
      with a m have "columns < row_width flag 1 1 (div_up ?n 1) bufs" by simp
      from single_column_wide [OF _ this tw] recs a
      show "\<exists>b\<in>set bufs. columns < int (record_width b)" by simp
    qed
    from gs c1 c2 c3 c4 c5 c6 show ?thesis by blast
  qed
qed

theorem grid_search_terminates_witness:
  "\<exists>g k out.
     grid_search (flags_init\<lparr>Cflag := True\<rparr>) 10 (map record_widths [''a'', ''b'', ''c'', ''d''])
         \<lparr>curr_col = length [''a'', ''b'', ''c'', ''d''], curr_row = 1,
          max_col_width = map record_widths [''a'', ''b'', ''c'', ''d'']\<rparr> 0
       = Some (Inr (g, k))
     \<and> k \<le> 4
     \<and> print_grid (flags_init\<lparr>Cflag := True\<rparr>) 10 [''a'', ''b'', ''c'', ''d''] = Some (Inr out)
     \<and> int (max_line_width out) \<le> 10"
proof -
  let ?fl = "flags_init\<lparr>Cflag := True\<rparr>"
  let ?B = "[''a'', ''b'', ''c'', ''d'']"
  have h1: "?B \<noteq> []" by simp
  have h2: "\<forall>b\<in>set ?B. length (split_fields (c_string b)) = 1"
    by (simp add: c_string_def NUL_def DELIMITER_def)
  have h3: "Cflag ?fl \<noteq> xflag ?fl" by (simp add: flags_init_def)
  have h4: "0 < (10::int)" by simp
  have narrow: "\<not> (\<exists>b\<in>set ?B. 10 < int (record_width b))"
    by (simp add: record_width_def c_string_def NUL_def)
  from grid_search_terminates [OF h1 h2 h3 h4]
  obtain g k out where gs: "grid_search ?fl 10 (map record_widths ?B)
         \<lparr>curr_col = length ?B, curr_row = 1, max_col_width = map record_widths ?B\<rparr> 0
       = Some (Inr (g, k))"
    and k: "k \<le> length ?B"
    and pg: "print_grid ?fl 10 ?B = Some (Inr out)"
    and w: "(1::nat) = 1 \<and> 10 < int (max_line_width out)
          \<longrightarrow> (\<exists>b\<in>set ?B. 10 < int (record_width b))"
    by blast
  from w narrow have "int (max_line_width out) \<le> 10" by auto
  moreover from k have "k \<le> 4" by simp
  ultimately show ?thesis using gs pg by blast
qed

lemma print_file_inode:
  assumes fl: "iflag flag" "\<not> sflag flag" "\<not> lflag flag" "\<not> nflag flag" "\<not> Fflag flag"
    and disp: "dflag flag \<or> display_file dir nm flag"
    and fit: "length (dec (st_ino st)) + length (rendered_name nm flag) + 2 \<le> n"
  shows "print_file n dir nm st flag e
           = Inr (dec (st_ino st) @ [DELIMITER] @ rendered_name nm flag @ [NUL])"
proof -
  let ?s0 = "\<lparr>out = [], remain = n\<rparr>"
  let ?d = "dec (st_ino st)"
  let ?s1 = "\<lparr>out = ?d, remain = n - length ?d\<rparr>"
  let ?s2 = "\<lparr>out = ?d @ [DELIMITER], remain = n - length ?d - 1\<rparr>"
  let ?s3 = "\<lparr>out = ?d @ [DELIMITER] @ rendered_name nm flag,
              remain = n - length ?d - 1 - length (rendered_name nm flag)\<rparr>"
  from disp have nd: "(\<not> dflag flag \<and> \<not> display_file dir nm flag) = False" by simp
  have i: "print_inode ?s0 st = Inr ?s1"
    using fit by (simp add: print_inode_def print_size_dec_def snprintf_advance_fits)
  have d: "print_delim ?s1 = ?s2"
    using fit by (simp add: print_delim_def print_char_def)
  have nmw: "print_name ?s2 nm flag = ?s3"
    using fit by (simp add: print_name_cut)
  have z: "out (print_char ?s3 NUL) = ?d @ [DELIMITER] @ rendered_name nm flag @ [NUL]"
    using fit by (simp add: print_char_def)
  have "print_file n dir nm st flag e
      = Inr (out (print_char (print_name (print_delim ?s1) nm flag) NUL))"
    unfolding print_file_def nd if_False
    using fl by (simp add: and_then_def i)
  also have "\<dots> = Inr (?d @ [DELIMITER] @ rendered_name nm flag @ [NUL])"
    by (simp only: d nmw z)
  finally show ?thesis .
qed

lemma dec_100: "dec 100 = ''100''"
  by (subst dec.simps, simp, subst dec.simps, simp) (simp add: dec_small digit_char_def)

text \<open>
  Claim C1 as stated fails for records of more than one field. Two entries listed with
  their inode numbers, \<open>100 x\<close> and \<open>1 yyy\<close>, are each 5 characters wide. With a target of
  6 the first pass counts 11 for one row of two grid columns, the second pass stops at the
  grid of two rows, and the common field widths pad the second row to 7 characters: a row
  wider than the target although the target is not smaller than the widest record.
\<close>

theorem padded_rows_counterexample:
  "print_dir []
       [\<lparr>name = ''x'', sb = regular_stat\<lparr>st_ino := 100\<rparr>\<rparr>,
        \<lparr>name = ''yyy'', sb = regular_stat\<lparr>st_ino := 1\<rparr>\<rparr>]
       (flags_init\<lparr>Cflag := True, iflag := True\<rparr>) (sample_env\<lparr>env_COLUMNS := Some 6\<rparr>)
     = Some (Inr (''100 x'' @ [CHR 0x0A] @ ''1   yyy'' @ [CHR 0x0A]))
   \<and> print_grid (flags_init\<lparr>Cflag := True, iflag := True\<rparr>) 6 inode_records
     = Some (Inr (''100 x'' @ [CHR 0x0A] @ ''1   yyy'' @ [CHR 0x0A]))
   \<and> max_line_width (''100 x'' @ [CHR 0x0A] @ ''1   yyy'' @ [CHR 0x0A]) = 7
   \<and> map record_width inode_records = [5, 5]"
proof -
  let ?fl = "flags_init\<lparr>Cflag := True, iflag := True\<rparr>"
  let ?e = "sample_env\<lparr>env_COLUMNS := Some 6\<rparr>"
  let ?x = "\<lparr>name = ''x'', sb = regular_stat\<lparr>st_ino := 100\<rparr>\<rparr>"
  let ?y = "\<lparr>name = ''yyy'', sb = regular_stat\<lparr>st_ino := 1\<rparr>\<rparr>"
  let ?ew = "[\<lparr>max_width = [3, 1], cols = 2\<rparr>, \<lparr>max_width = [1, 3], cols = 2\<rparr>]"
  let ?g1 = "\<lparr>curr_col = 2, curr_row = 2, max_col_width = ?ew\<rparr>"
  let ?g2 = "\<lparr>curr_col = 1, curr_row = 2,
              max_col_width = [\<lparr>max_width = [3, 3], cols = 2\<rparr>, \<lparr>max_width = [1, 1], cols = 2\<rparr>]\<rparr>"
  let ?out = "''100 x'' @ [CHR 0x0A] @ ''1   yyy'' @ [CHR 0x0A]"
  have fl: "iflag ?fl" "\<not> sflag ?fl" "\<not> lflag ?fl" "\<not> nflag ?fl" "\<not> Fflag ?fl"
    "Cflag ?fl" "\<not> xflag ?fl"
    by (simp_all add: flags_init_def)
  have dx: "dflag ?fl \<or> display_file [] ''x'' ?fl"
    and dy: "dflag ?fl \<or> display_file [] ''yyy'' ?fl"
    by (simp_all add: display_file_def is_dot_dir_def is_hidden_file_def c_string_def NUL_def)
  have rx: "rendered_name ''x'' ?fl = ''x''" and ry: "rendered_name ''yyy'' ?fl = ''yyy''"
    by (simp_all add: rendered_name_def c_string_def NUL_def flags_init_def)
  have fx: "length (dec (st_ino (regular_stat\<lparr>st_ino := 100\<rparr>))) + length (rendered_name ''x'' ?fl) + 2
      \<le> LINE_SIZE"
    unfolding rx by (simp add: dec_100 LINE_SIZE_def)
  have fy: "length (dec (st_ino (regular_stat\<lparr>st_ino := 1\<rparr>))) + length (rendered_name ''yyy'' ?fl) + 2
      \<le> LINE_SIZE"
    unfolding ry by (simp add: dec_Suc_0 LINE_SIZE_def)
  from dx have nx: "(\<not> dflag ?fl \<and> \<not> display_file [] ''x'' ?fl) = False" by simp
  from dy have ny: "(\<not> dflag ?fl \<and> \<not> display_file [] ''yyy'' ?fl) = False" by simp
  have ex: "entry_record None [] ?fl ?e ?x = Inr (''100'' @ [DELIMITER] @ ''x'')"
    unfolding entry_record_def file_entry.select_convs nx if_False
      print_file_inode [OF fl(1-5) dx fx] rx
    by (simp add: dec_100 and_then_def buffer_string_def c_string_def NUL_def DELIMITER_def)
  have ey: "entry_record None [] ?fl ?e ?y = Inr (''1'' @ [DELIMITER] @ ''yyy'')"
    unfolding entry_record_def file_entry.select_convs ny if_False
      print_file_inode [OF fl(1-5) dy fy] ry
    by (simp add: dec_Suc_0 and_then_def buffer_string_def c_string_def NUL_def DELIMITER_def)
  have bufs: "for_each [?x, ?y]
        (\<lambda>entry bufs. and_then (entry_record None [] ?fl ?e entry) (\<lambda>buf. Inr (bufs @ [buf]))) []
      = Inr inode_records"
    by (simp only: for_each.simps ex ey and_then_def sum.case append_Nil append_Cons
        inode_records_def)
  have cols: "int_of_size_t (get_columns ?e) = 6"
    by (simp add: get_columns_def int_of_size_t_def)
  have ew: "map record_widths inode_records = ?ew" by code_simp
  have p1: "grid_pass ?fl 6 ?ew \<lparr>curr_col = 2, curr_row = 1, max_col_width = ?ew\<rparr> = Inr (False, ?g1)"
    by code_simp
  have p2: "grid_pass ?fl 6 ?ew ?g1 = Inr (True, ?g2)"
    by code_simp
  have gs: "grid_search ?fl 6 ?ew \<lparr>curr_col = 2, curr_row = 1, max_col_width = ?ew\<rparr> 0
      = Some (Inr (?g2, 2))"
    by (subst grid_search.simps, simp only: p1 sum.case prod.case if_False,
        subst grid_search.simps, simp only: p2 sum.case prod.case if_True) simp
  have pr: "print_columns_down inode_records ?g2 = Inr ?out"
    by code_simp
  have n: "length inode_records = 2" by (simp add: inode_records_def)
  have pg: "print_grid ?fl 6 inode_records = Some (Inr ?out)"
    unfolding print_grid_def for_each_init append_Nil ew n
    by (simp only: gs option.case sum.case prod.case fl(6) if_True pr)
  have pd: "print_dir [] [?x, ?y] ?fl ?e = Some (Inr ?out)"
    unfolding print_dir_def bufs cols using fl(6,7) pg by simp
  have w: "max_line_width ?out = 7" by code_simp
  have rw: "map record_width inode_records = [5, 5]" by code_simp
  from pd pg w rw show ?thesis by (intro conjI)
qed

text \<open>The block count under the default block size, on a file of 8 blocks: the quotient
  \<open>8 / 512\<close> and the product are doubles, nothing is rounded, and the count is printed
  as it is.\<close>

lemma bit_length_numeral:
  "bit_length 0 = 0" "bit_length 1 = 1" "bit_length (Suc 0) = 1"
  "bit_length (numeral (Num.Bit0 n)) = 1 + bit_length (numeral n)"
  "bit_length (numeral (Num.Bit1 n)) = 1 + bit_length (numeral n)"
  "bit_length (numeral Num.One) = 1"
  by (subst bit_length.simps, simp add: bit_length.simps [of 0])+

lemma round_double_0: "round_double 0 = 0"
  by (simp add: round_double_def)

lemma round_double_8: "round_double 8 = 8"
proof -
  have "binary_exponent 8 = 3"
    by (simp add: binary_exponent_def bit_length_numeral)
  then show ?thesis by (simp add: round_double_def pow2_def Let_def)
qed

lemma round_double_64th: "round_double (1 / 64) = 1 / 64"
proof -
  have "binary_exponent (1 / 64) = - 6"
    by (simp add: binary_exponent_def bit_length_numeral)
  then show ?thesis by (simp add: round_double_def pow2_def Let_def)
qed

lemma blkcnt_t_to_blocks_default: "blkcnt_t_to_blocks sample_env 8 = Inr 8"
  by (simp add: blkcnt_t_to_blocks_def get_block_size_def sample_env_def DEFAULT_BLOCK_SIZE_def
      double_of_long_def double_of_ulong_def round_double_0 round_double_8 round_double_64th
      ulong_of_double_def Let_def)

lemma print_blks_default:
  "print_blks \<lparr>out = [], remain = LINE_SIZE\<rparr> 8 flags_init sample_env
     = Inr \<lparr>out = ''8'', remain = LINE_SIZE - 1\<rparr>"
  by (simp add: print_blks_def flags_init_def blkcnt_t_to_blocks_default print_size_dec_def
      dec_small digit_char_def snprintf_advance_fits LINE_SIZE_def)

end
